theory Spec2Isabelle
  imports Main "HOL-Library.Word" "HOL-Library.Multiset"
begin

unbundle bit_operations_syntax

section \<open>Facets: the program state\<close>

text \<open>
  The program keeps its data in global static arrays. A static array \<^verbatim>\<open>T a[N]\<close> is
  modelled by the function from indices to cells together with the bound \<^verbatim>\<open>N\<close>, which is
  checked wherever the code indexes the array: an access outside the array is undefined
  behaviour in C++ and is a value of the type \<open>undefined_behaviour\<close> here, as are a shift
  by a count outside 0 to 63 and the read of a variable that was never written. A set is an
  \<^verbatim>\<open>unsigned long long\<close> (a 64-bit word); the output counters are \<^verbatim>\<open>int\<close>, taken to be 32 bits
  wide as on the platforms the program names, with \<open>++\<close> wrapping around as the two's
  complement hardware does (\<open>sint\<close> reads a counter; in C++ the overflow itself is
  undefined). The other \<^verbatim>\<open>int\<close> variables (\<^verbatim>\<open>number\<close>, \<^verbatim>\<open>i\<close>, \<^verbatim>\<open>j\<close>, \<^verbatim>\<open>index\<close>, \<^verbatim>\<open>size\<close>, \<^verbatim>\<open>x\<close>)
  are integers or natural numbers without a width: an index is checked against the bound of
  its array at every access, and on the arrays \<^verbatim>\<open>Read_input\<close> fills \<^verbatim>\<open>size\<close> stays between 0
  and 64.
\<close>

type_synonym u64 = "64 word"
type_synonym cint = "32 word"

definition MAX_NUMBER :: nat where
  "MAX_NUMBER = 1000"

record globals =
  number :: int
  sets :: "nat \<Rightarrow> u64"
  sequences :: "nat \<Rightarrow> nat \<Rightarrow> u64"
  numbers_of_subsets :: "nat \<Rightarrow> cint"

text \<open>Static storage is zero-initialised.\<close>

definition initial :: globals where
  "initial = \<lparr>number = 0, sets = (\<lambda>_. 0), sequences = (\<lambda>_ _. 0), numbers_of_subsets = (\<lambda>_. 0)\<rparr>"

datatype undefined_behaviour =
  Array_index_out_of_bounds | Shift_count_out_of_range | Uninitialised_read

section \<open>Reading the input\<close>

text \<open>
  \<^verbatim>\<open>x_stream >> x\<close> for an \<^verbatim>\<open>int x\<close>: leading white space is skipped. When the stream ends
  there (the string is empty or all blank) nothing is stored in \<open>x\<close>: the result is
  \<open>None\<close>. Otherwise an optional sign and the longest run of decimal digits are read; with
  no digit the extraction fails and stores 0, and a value outside the range of \<^verbatim>\<open>int\<close> is
  stored as the nearest bound.
\<close>

definition is_space :: "char \<Rightarrow> bool" where
  "is_space c = (let n = (of_char c :: nat) in n = 32 \<or> (9 \<le> n \<and> n \<le> 13))"

definition is_digit :: "char \<Rightarrow> bool" where
  "is_digit c = (let n = (of_char c :: nat) in 48 \<le> n \<and> n \<le> 57)"

definition digits_value :: "string \<Rightarrow> int" where
  "digits_value ds = foldl (\<lambda>v c. 10 * v + (int (of_char c) - 48)) 0 ds"

definition clamp_int :: "int \<Rightarrow> int" where
  "clamp_int v = max (- 2147483648) (min 2147483647 v)"

definition stream_to_int :: "string \<Rightarrow> int option" where
  "stream_to_int s =
     (let s1 = dropWhile is_space s;
          neg = (s1 \<noteq> [] \<and> hd s1 = CHR ''-'');
          s2 = (if s1 \<noteq> [] \<and> (hd s1 = CHR ''-'' \<or> hd s1 = CHR ''+'') then tl s1 else s1);
          ds = takeWhile is_digit s2
      in if s1 = [] then None
         else if ds = [] then Some 0
         else Some (clamp_int (if neg then - digits_value ds else digits_value ds)))"

text \<open>
  \<^verbatim>\<open>First_element\<close> returns the first element of a comma-separated string and the string
  with that element (and its comma) erased. Its \<^verbatim>\<open>int x\<close> is declared without a value: when
  the extraction stores nothing, \<^verbatim>\<open>return x\<close> reads a variable that was never written.
\<close>

definition First_element :: "string \<Rightarrow> undefined_behaviour + (int \<times> string)" where
  "First_element csstring =
     (let x_string = (if CHR '','' \<notin> set csstring then csstring
                      else takeWhile (\<lambda>c. c \<noteq> CHR '','') csstring);
          rest = (if CHR '','' \<notin> set csstring then []
                  else drop (length x_string + 1) csstring)
      in case stream_to_int x_string of
           None \<Rightarrow> Inl Uninitialised_read
         | Some x \<Rightarrow> Inr (x, rest))"

lemma First_element_shorter:
  "First_element line = Inr (x, rest) \<Longrightarrow> line \<noteq> [] \<Longrightarrow> length rest < length line"
  by (auto simp: First_element_def Let_def split: if_splits option.splits)

text \<open>
  The inner loop of \<^verbatim>\<open>Read_input\<close>, \<^verbatim>\<open>while (line != "")\<close>, for the row \<open>num\<close> (the value of \<^verbatim>\<open>number\<close>) of
  \<^verbatim>\<open>sequences\<close>: each element is shifted into the set (\<open>aset\<close> here) and the set so far is stored.
\<close>

function read_line ::
  "string \<Rightarrow> u64 \<Rightarrow> nat \<Rightarrow> nat \<Rightarrow> (nat \<Rightarrow> nat \<Rightarrow> u64)
     \<Rightarrow> undefined_behaviour + (u64 \<times> (nat \<Rightarrow> nat \<Rightarrow> u64))" where
  "read_line line aset index num seqs =
     (if line \<noteq> [] then
        (case First_element line of
           Inl e \<Rightarrow> Inl e
         | Inr (x, rest) \<Rightarrow>
             if x < 0 \<or> 64 \<le> x then Inl Shift_count_out_of_range
             else if MAX_NUMBER \<le> num \<or> 64 \<le> index then Inl Array_index_out_of_bounds
             else let aset' = aset OR push_bit (nat x) 1
                  in read_line rest aset' (index + 1) num
                       (seqs(num := (seqs num)(index := aset'))))
      else Inr (aset, seqs))"
  by pat_completeness auto
termination
  by (relation "measure (\<lambda>(line, aset, index, num, seqs). length line)")
     (auto dest: First_element_shorter)

declare read_line.simps [simp del]

text \<open>The outer loop, \<^verbatim>\<open>while (getline(file, line))\<close>, over the lines of the file.\<close>

fun read_lines :: "string list \<Rightarrow> globals \<Rightarrow> undefined_behaviour + globals" where
  "read_lines [] g = Inr g"
| "read_lines (line # rest) g =
     (case read_line line 0 0 (nat (number g)) (sequences g) of
        Inl e \<Rightarrow> Inl e
      | Inr (aset, seqs) \<Rightarrow>
          if MAX_NUMBER \<le> nat (number g) then Inl Array_index_out_of_bounds
          else read_lines rest
                 (g\<lparr>sequences := seqs,
                    sets := (sets g)(nat (number g) := aset),
                    number := number g + 1\<rparr>))"

text \<open>
  A file is \<open>None\<close> when it cannot be opened, and the list of its lines otherwise.
  \<^verbatim>\<open>Read_input\<close> returns false only when the file is not open.
\<close>

definition Read_input :: "string list option \<Rightarrow> globals \<Rightarrow> undefined_behaviour + (bool \<times> globals)" where
  "Read_input file g =
     (case file of
        None \<Rightarrow> Inr (False, g)
      | Some lines \<Rightarrow>
          (case read_lines lines (g\<lparr>number := 0\<rparr>) of
             Inl e \<Rightarrow> Inl e
           | Inr g' \<Rightarrow> Inr (True, g')))"

section \<open>Computing the numbers\<close>

text \<open>\<^verbatim>\<open>for (int j = 0; j < i; j++) if ((subset & sets[j]) == subset) { contained = true; break; }\<close>\<close>

function contained_loop :: "(nat \<Rightarrow> u64) \<Rightarrow> u64 \<Rightarrow> nat \<Rightarrow> nat \<Rightarrow> bool" where
  "contained_loop sts sub i j =
     (if j < i then
        (if sub AND sts j = sub then True
         else contained_loop sts sub i (j + 1))
      else False)"
  by pat_completeness auto
termination
  by (relation "measure (\<lambda>(sts, sub, i, j). i - j)") auto

declare contained_loop.simps [simp del]

text \<open>\<^verbatim>\<open>numbers_of_subsets[size]++\<close> on the array of 65 counters.\<close>

definition increment :: "(nat \<Rightarrow> cint) \<Rightarrow> int \<Rightarrow> undefined_behaviour + (nat \<Rightarrow> cint)" where
  "increment hist sz =
     (if 0 \<le> sz \<and> sz \<le> 64 then Inr (hist(nat sz := hist (nat sz) + 1))
      else Inl Array_index_out_of_bounds)"

text \<open>\<^verbatim>\<open>while ((subset | sequences[i][index]) == subset) index++;\<close> on a row of 64 cells.\<close>

function search :: "(nat \<Rightarrow> u64) \<Rightarrow> u64 \<Rightarrow> nat \<Rightarrow> undefined_behaviour + nat" where
  "search row sub index =
     (if 64 \<le> index then Inl Array_index_out_of_bounds
      else if sub OR row index = sub then search row sub (index + 1)
      else Inr index)"
  by pat_completeness auto
termination
  by (relation "measure (\<lambda>(row, sub, index). 64 - index)") auto

declare search.simps [simp del]

text \<open>The successor of \<^verbatim>\<open>subset\<close> (\<open>sub\<close> here) and its \<^verbatim>\<open>size\<close> (\<open>sz\<close> here; lines 135 to 139).\<close>

definition successor :: "(nat \<Rightarrow> u64) \<Rightarrow> u64 \<Rightarrow> int \<Rightarrow> undefined_behaviour + (u64 \<times> int)" where
  "successor row sub sz =
     (case search row sub 0 of
        Inl e \<Rightarrow> Inl e
      | Inr index \<Rightarrow> Inr (sub XOR row index, sz - (int index - 1)))"

text \<open>
  \<^verbatim>\<open>while (subset != set)\<close>: the loop may run forever on arrays that \<^verbatim>\<open>Read_input\<close> did not
  fill, so it is a partial function, \<open>None\<close> when it does not return.
\<close>

partial_function (option) subsets_loop ::
  "(nat \<Rightarrow> u64) \<Rightarrow> (nat \<Rightarrow> u64) \<Rightarrow> u64 \<Rightarrow> nat \<Rightarrow> u64 \<Rightarrow> int \<Rightarrow> (nat \<Rightarrow> cint)
     \<Rightarrow> (undefined_behaviour + (int \<times> (nat \<Rightarrow> cint))) option" where
  "subsets_loop sts row aset i sub sz hist =
     (if sub \<noteq> aset then
        (case (if contained_loop sts sub i 0 then Inr hist else increment hist sz) of
           Inl e \<Rightarrow> Some (Inl e)
         | Inr hist' \<Rightarrow>
             (case successor row sub sz of
                Inl e \<Rightarrow> Some (Inl e)
              | Inr (sub', sz') \<Rightarrow> subsets_loop sts row aset i sub' sz' hist'))
      else Some (Inr (sz, hist)))"

declare subsets_loop.simps [code]

text \<open>
  The values of \<^verbatim>\<open>subset\<close> and \<^verbatim>\<open>size\<close> at each evaluation of the loop condition, in order,
  the last pair being the one the loop leaves with: the same loop with the same successor
  step, recording the pairs in place of counting. (Lemma \<open>process_set_visited\<close> ties the
  two: the counters after the pass for a set are the tallies of the recorded subsets.)
\<close>

partial_function (option) visited ::
  "(nat \<Rightarrow> u64) \<Rightarrow> u64 \<Rightarrow> u64 \<Rightarrow> int \<Rightarrow> (u64 \<times> int) list
     \<Rightarrow> (undefined_behaviour + (u64 \<times> int) list) option" where
  "visited row aset sub sz acc =
     (if sub \<noteq> aset then
        (case successor row sub sz of
           Inl e \<Rightarrow> Some (Inl e)
         | Inr (sub', sz') \<Rightarrow> visited row aset sub' sz' (acc @ [(sub, sz)]))
      else Some (Inr (acc @ [(sub, sz)])))"

declare visited.simps [code]

text \<open>The body of the outer loop for the set \<open>A\<^sub>i\<close>, with the final case \<^verbatim>\<open>subset == set\<close>.\<close>

definition process_set ::
  "(nat \<Rightarrow> u64) \<Rightarrow> (nat \<Rightarrow> nat \<Rightarrow> u64) \<Rightarrow> nat \<Rightarrow> (nat \<Rightarrow> cint)
     \<Rightarrow> (undefined_behaviour + (nat \<Rightarrow> cint)) option" where
  "process_set sts seqs i hist =
     (if MAX_NUMBER \<le> i then Some (Inl Array_index_out_of_bounds)
      else
        (case subsets_loop sts (seqs i) (sts i) i 0 0 hist of
           None \<Rightarrow> None
         | Some (Inl e) \<Rightarrow> Some (Inl e)
         | Some (Inr (sz, hist')) \<Rightarrow>
             Some (if contained_loop sts (sts i) i 0 then Inr hist'
                   else increment hist' sz)))"

text \<open>\<^verbatim>\<open>for (int i = 0; i < number; i++)\<close>\<close>

function for_sets ::
  "int \<Rightarrow> (nat \<Rightarrow> u64) \<Rightarrow> (nat \<Rightarrow> nat \<Rightarrow> u64) \<Rightarrow> nat \<Rightarrow> (nat \<Rightarrow> cint)
     \<Rightarrow> (undefined_behaviour + (nat \<Rightarrow> cint)) option" where
  "for_sets n sts seqs i hist =
     (if int i < n then
        (case process_set sts seqs i hist of
           None \<Rightarrow> None
         | Some (Inl e) \<Rightarrow> Some (Inl e)
         | Some (Inr hist') \<Rightarrow> for_sets n sts seqs (i + 1) hist')
      else Some (Inr hist))"
  by pat_completeness auto
termination
  by (relation "measure (\<lambda>(n, sts, seqs, i, hist). nat n - i)") auto

declare for_sets.simps [simp del]

definition Compute_numbers :: "globals \<Rightarrow> (undefined_behaviour + globals) option" where
  "Compute_numbers g =
     (case for_sets (number g) (sets g) (sequences g) 0 (numbers_of_subsets g) of
        None \<Rightarrow> None
      | Some (Inl e) \<Rightarrow> Some (Inl e)
      | Some (Inr hist) \<Rightarrow> Some (Inr (g\<lparr>numbers_of_subsets := hist\<rparr>)))"

section \<open>Writing the output\<close>

text \<open>
  \<^verbatim>\<open>Write_output\<close> writes the counters from index 0 up to, not including, the first that
  is 0 (at most 65 of them); the result is the list of the numbers written.
\<close>

function write_loop :: "(nat \<Rightarrow> cint) \<Rightarrow> nat \<Rightarrow> int list" where
  "write_loop hist i =
     (if i \<le> 64 then
        (if hist i = 0 then [] else sint (hist i) # write_loop hist (i + 1))
      else [])"
  by pat_completeness auto
termination
  by (relation "measure (\<lambda>(hist, i). 65 - i)") auto

declare write_loop.simps [simp del]

definition Write_output :: "globals \<Rightarrow> int list" where
  "Write_output g = write_loop (numbers_of_subsets g) 0"

section \<open>Vocabulary of the specification\<close>

text \<open>
  The input is text; a base set is what the inner loop of \<^verbatim>\<open>Read_input\<close> sees of a line: the
  values \<^verbatim>\<open>First_element\<close> returns, one after the other, until the line is empty. A line is
  valid when every call returns a value (no element is empty or blank) and these values
  are distinct and lie in \<open>{0,...,63}\<close>; the empty line is valid and stands for the empty
  set.
\<close>

text \<open>The successive results of \<^verbatim>\<open>First_element\<close> on a line, and whether every call returns one.\<close>

function line_elements :: "string \<Rightarrow> int list" where
  "line_elements line =
     (if line \<noteq> [] then
        (case First_element line of
           Inl e \<Rightarrow> []
         | Inr (x, rest) \<Rightarrow> x # line_elements rest)
      else [])"
  by pat_completeness auto
termination
  by (relation "measure length") (auto dest: First_element_shorter)

declare line_elements.simps [simp del]

function line_parses :: "string \<Rightarrow> bool" where
  "line_parses line =
     (if line \<noteq> [] then
        (case First_element line of
           Inl e \<Rightarrow> False
         | Inr (x, rest) \<Rightarrow> line_parses rest)
      else True)"
  by pat_completeness auto
termination
  by (relation "measure length") (auto dest: First_element_shorter)

declare line_parses.simps [simp del]

definition elements :: "string \<Rightarrow> nat list" where
  "elements line = map nat (line_elements line)"

definition valid_line :: "string \<Rightarrow> bool" where
  "valid_line line =
     (line_parses line \<and> distinct (line_elements line) \<and>
      (\<forall>x\<in>set (line_elements line). 0 \<le> x \<and> x < 64))"

text \<open>The cardinality of a set given as a bit mask.\<close>

definition popcount :: "u64 \<Rightarrow> nat" where
  "popcount w = length (filter (bit w) [0..<64])"

text \<open>The number of sets of \<open>k\<close> elements that are a subset of at least one base set: of a family of sets, and of the lines of an input.\<close>

definition cover :: "nat set set \<Rightarrow> nat \<Rightarrow> nat" where
  "cover F k = card {X. card X = k \<and> (\<exists>S\<in>F. X \<subseteq> S)}"

definition covered :: "string list \<Rightarrow> nat \<Rightarrow> nat" where
  "covered lines k = card {X. card X = k \<and> (\<exists>l\<in>set lines. X \<subseteq> set (elements l))}"

text \<open>\<^verbatim>\<open>main\<close>: the numbers written when both files can be opened and \<^verbatim>\<open>Compute_numbers\<close> returns.\<close>

definition histogram :: "string list \<Rightarrow> int list option" where
  "histogram lines =
     (case Read_input (Some lines) initial of
        Inr (True, g) \<Rightarrow>
          (case Compute_numbers g of
             Some (Inr g') \<Rightarrow> Some (Write_output g')
           | _ \<Rightarrow> None)
      | _ \<Rightarrow> None)"

text \<open>The example of the program's header.\<close>

definition scenario_A :: "string list" where
  "scenario_A = [''1,3,5,6'', ''2,4,5,16,20'', ''0,2,5'']"

text \<open>Inputs on which a counter passes the range of \<^verbatim>\<open>int\<close>: one base set of 34 elements, and seven base sets that together hold exactly \<open>2\<^sup>3\<^sup>2\<close> sets of 15 elements.\<close>

definition line_0_to_33 :: string where
  "line_0_to_33 = ''0,1,2,3,4,5,6,7,8,9,10,11,12,13,14,15,16,17,18,19,20,21,22,23,24,25,26,27,28,29,30,31,32,33''"

definition big_A :: string where
  "big_A = ''0,1,2,3,4,5,6,7,8,9,10,11,12,13,14,15,16,17,18,19,20,21,22,23,24,25,26,27,28,29,30,31,32,33,34''"

definition big_B1 :: string where
  "big_B1 = ''0,1,2,3,4,5,6,7,8,9,10,11,12,13,14,15,35,36,37,38,39,40,41,42,43,44,45,46,47,48,49,50,51''"

definition big_B2 :: string where
  "big_B2 = ''0,1,2,3,4,5,6,7,8,9,10,11,12,13,14,15,16,17,18,19,52,53,54,55,56,57''"

definition big_B3 :: string where
  "big_B3 = ''0,1,2,3,4,5,6,7,8,9,10,11,12,13,14,15,16,17,18,19,20,21,22,23,58''"

definition big_B4 :: string where
  "big_B4 = ''0,1,2,3,4,5,6,7,8,9,10,11,12,13,14,15,16,17,18,19,59,60''"

definition big_B5 :: string where
  "big_B5 = ''0,1,2,3,4,5,6,7,8,9,10,11,12,13,14,15,16,17,18,19,61''"

definition big_B6 :: string where
  "big_B6 = ''0,1,2,3,4,5,6,7,8,9,10,11,12,13,14,15,62''"

definition big_input :: "string list" where
  "big_input = [big_A, big_B1, big_B2, big_B3, big_B4, big_B5, big_B6]"

section \<open>Notions used in the proofs\<close>

text \<open>
  A mask is read as the set of its bit positions. For a line with elements \<open>es\<close>, the
  row of \<^verbatim>\<open>sequences\<close> holds the masks of the nonempty prefixes of \<open>es\<close>, and the loop of
  \<^verbatim>\<open>Compute_numbers\<close> walks the subsets in the order \<open>enum\<close>: the first element of the line
  is the lowest digit of a binary counter.
\<close>

definition bits :: "u64 \<Rightarrow> nat set" where
  "bits w = {n. bit w n}"

fun mask_of :: "nat list \<Rightarrow> u64" where
  "mask_of [] = 0"
| "mask_of (x # xs) = push_bit x 1 OR mask_of xs"

definition valid_elements :: "nat list \<Rightarrow> bool" where
  "valid_elements es = (distinct es \<and> (\<forall>x\<in>set es. x < 64))"

definition row_of :: "(nat \<Rightarrow> u64) \<Rightarrow> nat list \<Rightarrow> bool" where
  "row_of row es = (\<forall>k<length es. row k = mask_of (take (Suc k) es))"

definition loaded_row :: "(nat \<Rightarrow> u64) \<Rightarrow> (nat \<Rightarrow> nat \<Rightarrow> u64) \<Rightarrow> nat \<Rightarrow> nat list \<Rightarrow> bool" where
  "loaded_row sts seqs i es = (valid_elements es \<and> row_of (seqs i) es \<and> sts i = mask_of es)"

text \<open>The order of the walk: all subsets of the first \<open>p\<close> elements, joined to \<open>z\<close>.\<close>

fun enum :: "nat list \<Rightarrow> nat \<Rightarrow> u64 \<Rightarrow> u64 list" where
  "enum es 0 z = [z]"
| "enum es (Suc p) z = enum es p z @ enum es p (z OR push_bit (es ! p) 1)"

text \<open>What one pass of the loop body (lines 125 to 131) does to the counters for a subset whose \<^verbatim>\<open>size\<close> is its cardinality, and what the recording loop appends.\<close>

definition tally :: "(nat \<Rightarrow> u64) \<Rightarrow> nat \<Rightarrow> (nat \<Rightarrow> cint) \<Rightarrow> u64 \<Rightarrow> (nat \<Rightarrow> cint)" where
  "tally sts i hist w =
     (if contained_loop sts w i 0 then hist
      else hist(popcount w := hist (popcount w) + 1))"

definition pair_of :: "u64 \<Rightarrow> u64 \<times> int" where
  "pair_of w = (w, int (card (bits w)))"

text \<open>The masks first covered by the set \<open>i\<close>, and those covered by the first \<open>n\<close> sets.\<close>

definition newly :: "(nat \<Rightarrow> u64) \<Rightarrow> nat \<Rightarrow> nat \<Rightarrow> u64 set" where
  "newly sts i k = {w. bits w \<subseteq> bits (sts i) \<and> card (bits w) = k \<and> (\<forall>j<i. \<not> bits w \<subseteq> bits (sts j))}"

definition cov :: "(nat \<Rightarrow> u64) \<Rightarrow> nat \<Rightarrow> nat \<Rightarrow> u64 set" where
  "cov sts n k = {w. card (bits w) = k \<and> (\<exists>j<n. bits w \<subseteq> bits (sts j))}"

section \<open>Lemmas\<close>

subsection \<open>Masks and sets of bit positions\<close>

lemma bits_bound: "n \<in> bits w \<Longrightarrow> n < 64"
  by (auto simp: bits_def dest: bit_imp_le_length)

lemma finite_bits [simp]: "finite (bits w)"
  by (rule finite_subset [of _ "{..<64}"]) (auto dest: bits_bound)

lemma card_bits_le: "card (bits w) \<le> 64"
proof -
  have "card (bits w) \<le> card {..<64::nat}"
    by (rule card_mono) (auto dest: bits_bound)
  then show ?thesis by simp
qed

lemma popcount_card: "popcount w = card (bits w)"
proof -
  have "set (filter (bit w) [0..<64]) = bits w"
    by (auto simp: bits_def dest: bit_imp_le_length)
  then have "card (bits w) = card (set (filter (bit w) [0..<64]))" by simp
  also have "\<dots> = length (filter (bit w) [0..<64])"
    by (rule distinct_card) simp
  finally show ?thesis by (simp add: popcount_def)
qed

lemma bits_inj: "bits a = bits b \<Longrightarrow> a = b"
  by (rule bit_eqI) (auto simp: bits_def set_eq_iff)

lemma bits_0 [simp]: "bits 0 = {}"
  by (simp add: bits_def)

lemma bits_OR [simp]: "bits (a OR b) = bits a \<union> bits b"
  by (auto simp: bits_def bit_or_iff)

lemma bits_AND [simp]: "bits (a AND b) = bits a \<inter> bits b"
  by (auto simp: bits_def bit_and_iff)

lemma bits_XOR [simp]: "bits (a XOR b) = (bits a - bits b) \<union> (bits b - bits a)"
  by (auto simp: bits_def bit_xor_iff)

lemma bits_push [simp]: "x < 64 \<Longrightarrow> bits (push_bit x 1 :: u64) = {x}"
  by (auto simp: bits_def bit_exp_iff possible_bit_word)

lemma bits_exp [simp]: "x < 64 \<Longrightarrow> bits (2 ^ x :: u64) = {x}"
  by (auto simp: bits_def bit_exp_iff possible_bit_word)

lemma AND_eq_iff: "(a AND b = a) = (bits a \<subseteq> bits b)"
proof
  assume "a AND b = a"
  then have "bits (a AND b) = bits a" by simp
  then show "bits a \<subseteq> bits b" by auto
next
  assume "bits a \<subseteq> bits b"
  then have "bits (a AND b) = bits a" by auto
  then show "a AND b = a" by (rule bits_inj)
qed

lemma OR_eq_iff: "(a OR b = a) = (bits b \<subseteq> bits a)"
proof
  assume "a OR b = a"
  then have "bits (a OR b) = bits a" by simp
  then show "bits b \<subseteq> bits a" by auto
next
  assume "bits b \<subseteq> bits a"
  then have "bits (a OR b) = bits a" by auto
  then show "a OR b = a" by (rule bits_inj)
qed

lemma bits_surj: 
  assumes "X \<subseteq> {..<64}"
  shows "\<exists>w. bits w = X"
proof -
  let ?w = "horner_sum of_bool 2 (map (\<lambda>n. n \<in> X) [0..<64]) :: u64"
  have "bits ?w = X"
    using assms by (auto simp: bits_def bit_horner_sum_bit_word_iff)
  then show ?thesis ..
qed

subsection \<open>The two inner loops\<close>

lemma contained_loop_iff:
  "contained_loop sts w i j = (\<exists>k. j \<le> k \<and> k < i \<and> bits w \<subseteq> bits (sts k))"
proof (induction sts w i j rule: contained_loop.induct)
  case (1 sts sub i j)
  show ?case
  proof (cases "j < i")
    case False
    then show ?thesis by (subst contained_loop.simps) auto
  next
    case True
    show ?thesis
    proof (cases "sub AND sts j = sub")
      case True
      with \<open>j < i\<close> show ?thesis
        by (subst contained_loop.simps) (auto simp: AND_eq_iff)
    next
      case False
      then have "\<not> bits sub \<subseteq> bits (sts j)" by (simp add: AND_eq_iff)
      moreover have "contained_loop sts sub i j = contained_loop sts sub i (j + 1)"
        using True False by (subst contained_loop.simps) simp
      ultimately show ?thesis
        using 1 [OF True False] 
        by (metis Suc_eq_plus1 Suc_leD Suc_leI le_neq_implies_less)
    qed
  qed
qed

lemma search_found:
  assumes "\<forall>k. j \<le> k \<and> k < t \<longrightarrow> bits (row k) \<subseteq> bits s"
    and "\<not> bits (row t) \<subseteq> bits s" and "t < 64" and "j \<le> t"
  shows "search row s j = Inr t"
  using assms
proof (induction "t - j" arbitrary: j)
  case 0
  then have "j = t" by simp
  with 0 show ?case by (subst search.simps) (simp add: OR_eq_iff)
next
  case (Suc d)
  then have "j < t" by simp
  with Suc.prems have "bits (row j) \<subseteq> bits s" by simp
  moreover have "search row s (j + 1) = Inr t"
    using Suc by (intro Suc.hyps(1)) auto
  ultimately show ?case
    using \<open>j < t\<close> \<open>t < 64\<close> by (subst search.simps) (simp add: OR_eq_iff)
qed

subsection \<open>Rows of prefix masks\<close>

lemma bits_mask_of: "\<forall>x\<in>set es. x < 64 \<Longrightarrow> bits (mask_of es) = set es"
  by (induction es) simp_all

lemma valid_length: 
  assumes "valid_elements es" shows "length es \<le> 64"
proof -
  have "card (set es) \<le> card {..<64::nat}"
    using assms by (intro card_mono) (auto simp: valid_elements_def)
  then show ?thesis using assms by (simp add: valid_elements_def distinct_card)
qed

lemma valid_take: "valid_elements es \<Longrightarrow> valid_elements (take k es)"
  by (auto simp: valid_elements_def dest: in_set_takeD)

lemma bits_mask_take: "valid_elements es \<Longrightarrow> bits (mask_of (take k es)) = set (take k es)"
  by (rule bits_mask_of) (auto simp: valid_elements_def dest: in_set_takeD)

lemma bits_mask_valid: "valid_elements es \<Longrightarrow> bits (mask_of es) = set es"
  by (rule bits_mask_of) (auto simp: valid_elements_def)

lemma nth_not_in_take:
  assumes d: "distinct es" and p: "p < length es"
  shows "es ! p \<notin> set (take p es)"
proof
  assume "es ! p \<in> set (take p es)"
  then obtain j where "j < length (take p es)" "take p es ! j = es ! p"
    by (auto simp: in_set_conv_nth)
  then have "j < p" "es ! j = es ! p" using p by simp_all
  with d p show False by (simp add: nth_eq_iff_index_eq)
qed

lemma nth_not_in_drop:
  assumes d: "distinct es" and p: "p < length es"
  shows "es ! p \<notin> set (drop (Suc p) es)"
proof
  assume "es ! p \<in> set (drop (Suc p) es)"
  then obtain j where "j < length (drop (Suc p) es)" "drop (Suc p) es ! j = es ! p"
    by (auto simp: in_set_conv_nth)
  then have "Suc p + j < length es" "es ! (Suc p + j) = es ! p" using p by simp_all
  with d p show False by (simp add: nth_eq_iff_index_eq)
qed

lemma set_take_Suc: "p < length es \<Longrightarrow> set (take (Suc p) es) = insert (es ! p) (set (take p es))"
  by (simp add: take_Suc_conv_app_nth)

text \<open>One successor step from a subset that holds the first t elements and not the next.\<close>

subsection \<open>One successor step\<close>

lemma search_valid:
  assumes v: "valid_elements es" and r: "row_of row es" and t: "t < length es"
    and low: "\<forall>k<t. es ! k \<in> bits s" and nt: "es ! t \<notin> bits s"
  shows "search row s 0 = Inr t"
proof (rule search_found)
  show "t < 64" using valid_length [OF v] t by simp
  show "0 \<le> t" by simp
  have rowk: "bits (row k) = set (take (Suc k) es)" if "k < length es" for k
    using r that bits_mask_take [OF v] by (simp add: row_of_def)
  show "\<not> bits (row t) \<subseteq> bits s"
    using rowk [OF t] nt t by (auto simp: set_take_Suc)
  show "\<forall>k. 0 \<le> k \<and> k < t \<longrightarrow> bits (row k) \<subseteq> bits s"
  proof (intro allI impI)
    fix k assume k: "0 \<le> k \<and> k < t"
    then have "k < length es" using t by simp
    moreover have "set (take (Suc k) es) \<subseteq> bits s"
    proof
      fix x assume "x \<in> set (take (Suc k) es)"
      then obtain j where "j < Suc k" "j < length es" "x = es ! j"
        by (auto simp: in_set_conv_nth)
      with low k show "x \<in> bits s" by simp
    qed
    ultimately show "bits (row k) \<subseteq> bits s" by (simp add: rowk)
  qed
qed

lemma xor_valid:
  assumes v: "valid_elements es" and r: "row_of row es" and t: "t < length es"
    and low: "\<forall>k<t. es ! k \<in> bits s" and nt: "es ! t \<notin> bits s"
  shows "bits (s XOR row t) = (bits s - set (take t es)) \<union> {es ! t}"
proof -
  have "bits (row t) = insert (es ! t) (set (take t es))"
    using r t bits_mask_take [OF v] by (simp add: row_of_def set_take_Suc)
  moreover have "set (take t es) \<subseteq> bits s"
  proof
    fix x assume "x \<in> set (take t es)"
    then obtain j where "j < t" "x = es ! j"
      by (auto simp: in_set_conv_nth)
    with low show "x \<in> bits s" by simp
  qed
  ultimately show ?thesis using nt by auto
qed

lemma card_xor_valid:
  assumes v: "valid_elements es" and r: "row_of row es" and t: "t < length es"
    and low: "\<forall>k<t. es ! k \<in> bits s" and nt: "es ! t \<notin> bits s"
  shows "int (card (bits (s XOR row t))) = int (card (bits s)) - (int t - 1)"
proof -
  have d: "distinct es" using v by (simp add: valid_elements_def)
  have sub: "set (take t es) \<subseteq> bits s"
  proof
    fix x assume "x \<in> set (take t es)"
    then obtain j where "j < t" "x = es ! j"
      by (auto simp: in_set_conv_nth)
    with low show "x \<in> bits s" by simp
  qed
  have ct: "card (set (take t es)) = t"
    using d t by (simp add: distinct_card)
  have "card (bits s - set (take t es)) = card (bits s) - t"
    using sub ct by (simp add: card_Diff_subset)
  moreover have "t \<le> card (bits s)"
    using card_mono [OF finite_bits sub] ct by simp
  moreover have "es ! t \<notin> bits s - set (take t es)" using nt by simp
  ultimately have "card ((bits s - set (take t es)) \<union> {es ! t}) = card (bits s) - t + 1"
    by simp
  with \<open>t \<le> card (bits s)\<close> show ?thesis
    by (simp only: xor_valid [OF assms])
qed

lemma successor_valid:
  assumes v: "valid_elements es" and r: "row_of row es" and t: "t < length es"
    and low: "\<forall>k<t. es ! k \<in> bits s" and nt: "es ! t \<notin> bits s"
  shows "successor row s (int (card (bits s))) =
           Inr (s XOR row t, int (card (bits (s XOR row t))))"
proof -
  have "search row s 0 = Inr t" by (rule search_valid [OF assms])
  then have "successor row s (int (card (bits s))) =
      Inr (s XOR row t, int (card (bits s)) - (int t - 1))"
    by (simp only: successor_def sum.case)
  then show ?thesis by (simp only: card_xor_valid [OF assms])
qed

text \<open>A proper subset of the base set misses some element; the first such is found.\<close>

lemma first_missing:
  assumes "bits s \<subseteq> set es" and "bits s \<noteq> set es"
  obtains t where "t < length es" "\<forall>k<t. es ! k \<in> bits s" "es ! t \<notin> bits s"
proof -
  from assms obtain x where "x \<in> set es" "x \<notin> bits s" by auto
  then obtain k where k: "k < length es" "es ! k \<notin> bits s"
    by (auto simp: in_set_conv_nth)
  define t where "t = (LEAST k. k < length es \<and> es ! k \<notin> bits s)"
  have 1: "t < length es \<and> es ! t \<notin> bits s"
    unfolding t_def by (rule LeastI [of _ k]) (use k in simp)
  have 2: "es ! j \<in> bits s" if "j < t" for j
  proof (rule ccontr)
    assume "es ! j \<notin> bits s"
    moreover have "j < length es" using that 1 by simp
    ultimately have "t \<le> j" unfolding t_def by (intro Least_le) simp
    with that show False by simp
  qed
  show thesis
  proof (rule that)
    show "t < length es" using 1 by simp
    show "\<forall>k<t. es ! k \<in> bits s" using 2 by simp
    show "es ! t \<notin> bits s" using 1 by simp
  qed
qed

subsection \<open>The walk through the subsets\<close>

lemma enum_nonempty [simp]: "enum es p z \<noteq> []"
  by (induction p arbitrary: z) simp_all

lemma length_enum: "length (enum es p z) = 2 ^ p"
  by (induction p arbitrary: z) simp_all

lemma last_enum:
  assumes "valid_elements es" and "p \<le> length es"
  shows "last (enum es p z) = z OR mask_of (take p es)"
  using assms(2)
proof (induction p arbitrary: z)
  case 0
  show ?case by simp
next
  case (Suc p)
  then have p: "p < length es" by simp
  have x: "es ! p < 64" using assms(1) p by (simp add: valid_elements_def)
  have "last (enum es (Suc p) z) = (z OR push_bit (es ! p) 1) OR mask_of (take p es)"
    using Suc.IH [of "z OR push_bit (es ! p) 1"] p by simp
  also have "\<dots> = z OR mask_of (take (Suc p) es)"
  proof (rule bits_inj)
    show "bits ((z OR push_bit (es ! p) 1) OR mask_of (take p es)) = bits (z OR mask_of (take (Suc p) es))"
      using x p by (simp add: bits_mask_take [OF assms(1)] set_take_Suc)
  qed
  finally show ?case .
qed

lemma loop_step:
  assumes "sub \<noteq> aset"
    and "successor row sub (int (card (bits sub))) = Inr (sub', sz')"
  shows "subsets_loop sts row aset i sub (int (card (bits sub))) hist =
         subsets_loop sts row aset i sub' sz' (tally sts i hist sub)"
proof -
  have c: "card (bits sub) \<le> 64" by (rule card_bits_le)
  show ?thesis
    by (subst subsets_loop.simps) (use assms c in \<open>simp add: increment_def tally_def popcount_card\<close>)
qed

lemma enum_walk:
  assumes v: "valid_elements es" and r: "row_of row es"
    and step: "\<And>s t h. t < length es \<Longrightarrow> \<forall>k<t. es ! k \<in> bits s \<Longrightarrow> es ! t \<notin> bits s
                 \<Longrightarrow> L s h = L (s XOR row t) (u h s)"
  shows "p \<le> length es \<Longrightarrow> bits z \<subseteq> set (drop p es) \<Longrightarrow>
     L z h = L (z OR mask_of (take p es)) (foldl u h (butlast (enum es p z)))"
proof (induction p arbitrary: z h)
  case 0
  show ?case by simp
next
  case (Suc p)
  have d: "distinct es" using v by (simp add: valid_elements_def)
  have p: "p < length es" using Suc.prems by simp
  have x: "es ! p < 64" using v p by (simp add: valid_elements_def)
  let ?b = "push_bit (es ! p) 1 :: u64"
  let ?s = "z OR mask_of (take p es)"
  let ?z' = "z OR ?b"
  have zsub: "bits z \<subseteq> set (drop p es)"
    using Suc.prems(2) set_drop_subset_set_drop [of p "Suc p" es] by auto
  have xz: "es ! p \<notin> bits z"
    using Suc.prems(2) nth_not_in_drop [OF d p] by auto
  have bs: "bits ?s = bits z \<union> set (take p es)"
    by (simp add: bits_mask_take [OF v])
  have xs: "es ! p \<notin> bits ?s"
    unfolding bs using xz nth_not_in_take [OF d p] by simp
  have low: "\<forall>k<p. es ! k \<in> bits ?s"
  proof (intro allI impI)
    fix k assume "k < p"
    then have "es ! k \<in> set (take p es)"
      using p by (auto simp: in_set_conv_nth intro!: exI [of _ k])
    then show "es ! k \<in> bits ?s" unfolding bs by simp
  qed
  have next_eq: "?s XOR row p = ?z'"
  proof (rule bits_inj)
    have "bits z \<inter> set (take p es) = {}"
    proof -
      have "distinct (take p es @ drop p es)" using d by simp
      then have "set (take p es) \<inter> set (drop p es) = {}"
        by (simp only: distinct_append)
      with zsub show ?thesis by auto
    qed
    then show "bits (?s XOR row p) = bits ?z'"
      using x by (simp only: xor_valid [OF v r p low xs] bits_OR bits_push bits_mask_take [OF v]) auto
  qed
  have step': "L ?s h' = L ?z' (u h' ?s)" for h'
    using step [OF p low xs, of h'] by (simp only: next_eq)
  have z'sub: "bits ?z' \<subseteq> set (drop p es)"
  proof -
    have "es ! p \<in> set (drop p es)"
      using p Cons_nth_drop_Suc [of p es] list.set_intros(1) [of "es ! p" "drop (Suc p) es"] by simp
    with zsub x show ?thesis by simp
  qed
  have fin: "?z' OR mask_of (take p es) = z OR mask_of (take (Suc p) es)"
  proof (rule bits_inj)
    show "bits (?z' OR mask_of (take p es)) = bits (z OR mask_of (take (Suc p) es))"
      using x p by (simp add: bits_mask_take [OF v] set_take_Suc)
  qed
  have l: "last (enum es p z) = ?s"
    using last_enum [OF v] p by simp
  have bl: "butlast (enum es (Suc p) z) = butlast (enum es p z) @ [?s] @ butlast (enum es p ?z')"
  proof -
    have "butlast (enum es (Suc p) z) = enum es p z @ butlast (enum es p ?z')"
      by (simp add: butlast_append)
    also have "enum es p z = butlast (enum es p z) @ [?s]"
      using l append_butlast_last_id [of "enum es p z"] by simp
    finally show ?thesis by simp
  qed
  have "L z h = L ?s (foldl u h (butlast (enum es p z)))"
    using Suc.IH [OF _ zsub] p by simp
  also have "\<dots> = L ?z' (u (foldl u h (butlast (enum es p z))) ?s)"
    by (rule step')
  also have "\<dots> = L (?z' OR mask_of (take p es))
          (foldl u (u (foldl u h (butlast (enum es p z))) ?s) (butlast (enum es p ?z')))"
    using Suc.IH [OF _ z'sub] p by simp
  also have "\<dots> = L (z OR mask_of (take (Suc p) es)) (foldl u h (butlast (enum es (Suc p) z)))"
    by (simp only: fin bl foldl_append foldl.simps)
  finally show ?case .
qed

lemma not_full:
  assumes v: "valid_elements es" and t: "t < length es" and nt: "es ! t \<notin> bits s"
  shows "s \<noteq> mask_of es"
proof
  assume "s = mask_of es"
  then have "bits s = set es" by (simp add: bits_mask_valid [OF v])
  moreover have "es ! t \<in> set es" using t by simp
  ultimately show False using nt by simp
qed

lemma loop_enum:
  assumes v: "valid_elements es" and r: "row_of row es" and a: "aset = mask_of es"
  shows "p \<le> length es \<Longrightarrow> bits z \<subseteq> set (drop p es) \<Longrightarrow>
     subsets_loop sts row aset i z (int (card (bits z))) hist =
     subsets_loop sts row aset i (z OR mask_of (take p es)) (int (card (bits (z OR mask_of (take p es)))))
       (foldl (tally sts i) hist (butlast (enum es p z)))"
proof (rule enum_walk [OF v r, where L = "\<lambda>s h. subsets_loop sts row aset i s (int (card (bits s))) h"
      and u = "tally sts i"])
  fix s t h
  assume t: "t < length es" and low: "\<forall>k<t. es ! k \<in> bits s" and nt: "es ! t \<notin> bits s"
  have "s \<noteq> aset" unfolding a by (rule not_full [OF v t nt])
  then show "subsets_loop sts row aset i s (int (card (bits s))) h =
      subsets_loop sts row aset i (s XOR row t) (int (card (bits (s XOR row t)))) (tally sts i h s)"
    by (rule loop_step) (rule successor_valid [OF v r t low nt])
qed

lemma foldl_snoc_map: "foldl (\<lambda>acc w. acc @ [f w]) acc ws = acc @ map f ws"
  by (induction ws arbitrary: acc) simp_all

lemma visited_valid:
  assumes v: "valid_elements es" and r: "row_of row es" and a: "aset = mask_of es"
  shows "visited row aset 0 0 [] = Some (Inr (map pair_of (enum es (length es) 0)))"
proof -
  let ?L = "\<lambda>s acc. visited row aset s (int (card (bits s))) acc"
  let ?u = "\<lambda>acc w. acc @ [pair_of w]"
  let ?ws = "enum es (length es) 0"
  have walk: "?L 0 [] = ?L (0 OR mask_of (take (length es) es)) (foldl ?u [] (butlast ?ws))"
  proof (rule enum_walk [OF v r, where L = ?L and u = ?u])
    fix s t and h :: "(u64 \<times> int) list"
    assume t: "t < length es" and low: "\<forall>k<t. es ! k \<in> bits s" and nt: "es ! t \<notin> bits s"
    have ne: "s \<noteq> aset" unfolding a by (rule not_full [OF v t nt])
    show "?L s h = ?L (s XOR row t) (h @ [pair_of s])"
      by (subst visited.simps) (simp add: ne successor_valid [OF v r t low nt] pair_of_def)
  qed simp_all
  have last: "last ?ws = aset"
    using last_enum [OF v, of "length es" 0] by (simp add: a)
  have "visited row aset 0 0 [] = visited row aset aset (int (card (bits aset))) (map pair_of (butlast ?ws))"
    using walk by (simp add: a foldl_snoc_map)
  also have "\<dots> = Some (Inr (map pair_of (butlast ?ws) @ [pair_of (last ?ws)]))"
    by (subst visited.simps) (simp add: pair_of_def last)
  also have "map pair_of (butlast ?ws) @ [pair_of (last ?ws)] = map pair_of ?ws"
  proof -
    have "butlast ?ws @ [last ?ws] = ?ws"
      by (rule append_butlast_last_id) simp
    then have "map pair_of (butlast ?ws @ [last ?ws]) = map pair_of ?ws"
      by (rule arg_cong)
    then show ?thesis by (simp only: map_append list.map)
  qed
  finally show ?thesis .
qed

subsection \<open>The walk visits every subset once\<close>

lemma in_enum_iff:
  assumes "\<forall>k<p. es ! k < 64" and "p \<le> length es"
  shows "w \<in> set (enum es p z) \<longleftrightarrow> (\<exists>S. S \<subseteq> set (take p es) \<and> bits w = bits z \<union> S)"
  using assms
proof (induction p arbitrary: z)
  case 0
  show ?case using bits_inj [of w z] by auto
next
  case (Suc p)
  then have p: "p < length es" and x: "es ! p < 64" by simp_all
  let ?x = "es ! p"
  have ih: "w \<in> set (enum es p z') \<longleftrightarrow> (\<exists>S. S \<subseteq> set (take p es) \<and> bits w = bits z' \<union> S)" for z'
    using Suc.IH [of z'] Suc.prems by simp
  have bz: "bits (z OR push_bit ?x 1) = insert ?x (bits z)"
    using x by simp
  show ?case
  proof
    assume "w \<in> set (enum es (Suc p) z)"
    then consider "w \<in> set (enum es p z)" | "w \<in> set (enum es p (z OR push_bit ?x 1))"
      by auto
    then show "\<exists>S. S \<subseteq> set (take (Suc p) es) \<and> bits w = bits z \<union> S"
    proof cases
      case 1
      then obtain S where "S \<subseteq> set (take p es)" "bits w = bits z \<union> S"
        using ih by blast
      then show ?thesis using p by (intro exI [of _ S]) (auto simp: set_take_Suc)
    next
      case 2
      then obtain S where "S \<subseteq> set (take p es)" "bits w = insert ?x (bits z) \<union> S"
        using ih [of "z OR push_bit ?x 1"] unfolding bz by blast
      then show ?thesis using p by (intro exI [of _ "insert ?x S"]) (auto simp: set_take_Suc)
    qed
  next
    assume "\<exists>S. S \<subseteq> set (take (Suc p) es) \<and> bits w = bits z \<union> S"
    then obtain S where S: "S \<subseteq> insert ?x (set (take p es))" "bits w = bits z \<union> S"
      using p by (auto simp: set_take_Suc)
    show "w \<in> set (enum es (Suc p) z)"
    proof (cases "?x \<in> S")
      case False
      with S have "S \<subseteq> set (take p es)" by auto
      with S(2) have "w \<in> set (enum es p z)" using ih by blast
      then show ?thesis by simp
    next
      case True
      with S have "S - {?x} \<subseteq> set (take p es)" "bits w = insert ?x (bits z) \<union> (S - {?x})"
        by auto
      then have "w \<in> set (enum es p (z OR push_bit ?x 1))"
        using ih [of "z OR push_bit ?x 1"] unfolding bz by blast
      then show ?thesis by simp
    qed
  qed
qed

lemma distinct_enum:
  assumes v: "valid_elements es"
  shows "p \<le> length es \<Longrightarrow> bits z \<inter> set (take p es) = {} \<Longrightarrow> distinct (enum es p z)"
proof (induction p arbitrary: z)
  case 0
  show ?case by simp
next
  case (Suc p)
  have d: "distinct es" using v by (simp add: valid_elements_def)
  have p: "p < length es" using Suc.prems by simp
  have x: "es ! p < 64" using v p by (simp add: valid_elements_def)
  have b: "\<forall>k<p. es ! k < 64" using v p by (simp add: valid_elements_def)
  let ?x = "es ! p"
  let ?z' = "z OR push_bit ?x 1"
  have bz: "bits ?z' = insert ?x (bits z)" using x by simp
  have z1: "bits z \<inter> set (take p es) = {}" and xz: "?x \<notin> bits z"
    using Suc.prems(2) p by (auto simp: set_take_Suc)
  have xt: "?x \<notin> set (take p es)" by (rule nth_not_in_take [OF d p])
  have z2: "bits ?z' \<inter> set (take p es) = {}"
    unfolding bz using z1 xt by simp
  have 1: "distinct (enum es p z)" using Suc.IH [OF _ z1] p by simp
  have 2: "distinct (enum es p ?z')" using Suc.IH [OF _ z2] p by simp
  have 3: "set (enum es p z) \<inter> set (enum es p ?z') = {}"
  proof (rule ccontr)
    assume "set (enum es p z) \<inter> set (enum es p ?z') \<noteq> {}"
    then obtain w where w: "w \<in> set (enum es p z)" "w \<in> set (enum es p ?z')" by auto
    from w(1) obtain S where S: "S \<subseteq> set (take p es)" "bits w = bits z \<union> S"
      using in_enum_iff [OF b, of w z] p by auto
    from w(2) obtain T where T: "T \<subseteq> set (take p es)" "bits w = insert ?x (bits z) \<union> T"
      using in_enum_iff [OF b, of w ?z'] p unfolding bz by auto
    from T(2) have "?x \<in> bits w" by simp
    with S xz xt show False by auto
  qed
  from 1 2 3 show ?case by simp
qed

lemma set_enum_all:
  assumes v: "valid_elements es"
  shows "set (enum es (length es) 0) = {w. bits w \<subseteq> set es}"
proof -
  have b: "\<forall>k<length es. es ! k < 64" using v by (simp add: valid_elements_def)
  show ?thesis using in_enum_iff [OF b, of _ 0] by auto
qed

lemma distinct_enum_all:
  "valid_elements es \<Longrightarrow> distinct (enum es (length es) 0)"
  by (rule distinct_enum) simp_all

text \<open>What the counters hold after a list of distinct subsets was tallied.\<close>

subsection \<open>The counters after one base set\<close>

lemma foldl_tally:
  "distinct ws \<Longrightarrow>
   foldl (tally sts i) hist ws k =
     hist k + of_nat (card {w \<in> set ws. card (bits w) = k \<and> \<not> contained_loop sts w i 0})"
proof (induction ws arbitrary: hist)
  case Nil
  show ?case by simp
next
  case (Cons a ws)
  let ?P = "\<lambda>w. card (bits w) = k \<and> \<not> contained_loop sts w i 0"
  have fin: "finite {w \<in> set ws. ?P w}" by simp
  have na: "a \<notin> {w \<in> set ws. ?P w}" using Cons.prems by simp
  have split: "{w \<in> set (a # ws). ?P w} = (if ?P a then insert a {w \<in> set ws. ?P w} else {w \<in> set ws. ?P w})"
    by auto
  have "foldl (tally sts i) hist (a # ws) k = tally sts i hist a k + of_nat (card {w \<in> set ws. ?P w})"
    using Cons.IH [of "tally sts i hist a"] Cons.prems by simp
  also have "tally sts i hist a k = hist k + (if ?P a then 1 else 0)"
    by (simp add: tally_def popcount_card)
  also have "hist k + (if ?P a then 1 else 0) + of_nat (card {w \<in> set ws. ?P w})
       = hist k + of_nat (card {w \<in> set (a # ws). ?P w})"
  proof (cases "?P a")
    case True
    have "card (insert a {w \<in> set ws. ?P w}) = Suc (card {w \<in> set ws. ?P w})"
      by (rule card_insert_disjoint [OF fin na])
    with True show ?thesis unfolding split by (simp only: if_True of_nat_Suc) simp
  next
    case False
    then show ?thesis unfolding split by (simp only: if_False) simp
  qed
  finally show ?case .
qed

lemma subsets_loop_valid:
  assumes v: "valid_elements es" and r: "row_of row es" and a: "aset = mask_of es"
  shows "subsets_loop sts row aset i 0 0 hist =
     Some (Inr (int (length es), foldl (tally sts i) hist (butlast (enum es (length es) 0))))"
proof -
  have c: "card (bits aset) = length es"
    using v by (simp add: a bits_mask_valid valid_elements_def distinct_card)
  have "subsets_loop sts row aset i 0 (int (card (bits (0::u64)))) hist =
     subsets_loop sts row aset i (0 OR mask_of (take (length es) es))
       (int (card (bits (0 OR mask_of (take (length es) es) :: u64))))
       (foldl (tally sts i) hist (butlast (enum es (length es) 0)))"
    by (rule loop_enum [OF v r a]) simp_all
  also have "\<dots> = Some (Inr (int (length es), foldl (tally sts i) hist (butlast (enum es (length es) 0))))"
    by (subst subsets_loop.simps) (simp add: a [symmetric] c)
  finally show ?thesis by simp
qed

lemma process_set_valid:
  assumes l: "loaded_row sts seqs i es" and i: "i < MAX_NUMBER"
  shows "process_set sts seqs i hist = Some (Inr (foldl (tally sts i) hist (enum es (length es) 0)))"
proof -
  have v: "valid_elements es" and r: "row_of (seqs i) es" and a: "sts i = mask_of es"
    using l by (simp_all add: loaded_row_def)
  let ?ws = "enum es (length es) 0"
  have c: "card (bits (sts i)) = length es"
    using v by (simp add: a bits_mask_valid valid_elements_def distinct_card)
  have le: "length es \<le> 64" by (rule valid_length [OF v])
  have last: "last ?ws = sts i"
    using last_enum [OF v, of "length es" 0] by (simp add: a)
  have "(if contained_loop sts (sts i) i 0 then Inr h else increment h (int (length es)))
      = Inr (tally sts i h (sts i))" for h
    using le by (simp add: tally_def increment_def c popcount_card)
  then have 1: "process_set sts seqs i hist =
      Some (Inr (tally sts i (foldl (tally sts i) hist (butlast ?ws)) (last ?ws)))"
    using i by (simp add: process_set_def subsets_loop_valid [OF v r a] last)
  have "butlast ?ws @ [last ?ws] = ?ws"
    by (rule append_butlast_last_id) simp
  then have "foldl (tally sts i) hist ?ws = foldl (tally sts i) hist (butlast ?ws @ [last ?ws])"
    by (rule arg_cong [OF sym])
  also have "\<dots> = tally sts i (foldl (tally sts i) hist (butlast ?ws)) (last ?ws)"
    by (simp only: foldl_append foldl.simps)
  finally show ?thesis using 1 by (simp only:)
qed

lemma process_set_counts:
  assumes l: "loaded_row sts seqs i es" and i: "i < MAX_NUMBER"
  shows "\<exists>hist'. process_set sts seqs i hist = Some (Inr hist') \<and>
           (\<forall>k. hist' k = hist k + of_nat (card (newly sts i k)))"
proof -
  have v: "valid_elements es" and a: "sts i = mask_of es"
    using l by (simp_all add: loaded_row_def)
  let ?ws = "enum es (length es) 0"
  have "{w \<in> set ?ws. card (bits w) = k \<and> \<not> contained_loop sts w i 0} = newly sts i k" for k
    by (auto simp: set_enum_all [OF v] newly_def contained_loop_iff a bits_mask_valid [OF v])
  then have "foldl (tally sts i) hist ?ws k = hist k + of_nat (card (newly sts i k))" for k
    using foldl_tally [OF distinct_enum_all [OF v], of sts i hist k] by simp
  then show ?thesis using process_set_valid [OF l i] by simp
qed

subsection \<open>What Read_input stores\<close>

lemma valid_line_elements: "valid_line line \<Longrightarrow> valid_elements (elements line)"
proof -
  assume v: "valid_line line"
  have "inj_on nat (set (line_elements line))"
  proof (rule inj_onI)
    fix x y assume "x \<in> set (line_elements line)" "y \<in> set (line_elements line)" "nat x = nat y"
    moreover from this v have "0 \<le> x" "0 \<le> y" by (simp_all add: valid_line_def)
    ultimately show "x = y" by simp
  qed
  moreover have "nat x < 64" if "x \<in> set (line_elements line)" for x
    using v that by (auto simp: valid_line_def)
  ultimately show ?thesis
    using v by (auto simp: valid_line_def valid_elements_def elements_def distinct_map)
qed

lemma read_line_loads:
  "line_parses line \<Longrightarrow>
   \<forall>x\<in>set (line_elements line). 0 \<le> x \<and> x < 64 \<Longrightarrow> num < MAX_NUMBER \<Longrightarrow>
   index + length (line_elements line) \<le> 64 \<Longrightarrow>
   \<exists>seqs'. read_line line aset index num seqs = Inr (aset OR mask_of (elements line), seqs') \<and>
      (\<forall>r. r \<noteq> num \<longrightarrow> seqs' r = seqs r) \<and>
      (\<forall>k<index. seqs' num k = seqs num k) \<and>
      (\<forall>k<length (elements line). seqs' num (index + k) = aset OR mask_of (take (Suc k) (elements line)))"
proof (induction line aset index num seqs rule: read_line.induct)
  case (1 line aset index num seqs)
  show ?case
  proof (cases "line = []")
    case True
    then have "line_elements line = []" by (simp add: line_elements.simps)
    with True show ?thesis
      by (subst read_line.simps) (simp add: elements_def)
  next
    case False
    obtain x rest where fe: "First_element line = Inr (x, rest)"
      using False "1.prems"(1) by (subst (asm) line_parses.simps) (auto split: sum.splits)
    have lp: "line_parses rest"
      using False fe "1.prems"(1) by (subst (asm) line_parses.simps) simp
    have le: "line_elements line = x # line_elements rest"
      using False fe by (subst line_elements.simps) simp
    have el: "elements line = nat x # elements rest"
      by (simp add: elements_def le)
    have x: "0 \<le> x" "x < 64" using "1.prems"(2) le by simp_all
    have idx: "index < 64" "index + 1 + length (line_elements rest) \<le> 64"
      using "1.prems"(4) le by simp_all
    let ?a = "aset OR push_bit (nat x) 1"
    let ?s = "seqs(num := (seqs num)(index := ?a))"
    have ih: "\<exists>seqs'. read_line rest ?a (index + 1) num ?s = Inr (?a OR mask_of (elements rest), seqs') \<and>
      (\<forall>r. r \<noteq> num \<longrightarrow> seqs' r = ?s r) \<and>
      (\<forall>k<index + 1. seqs' num k = ?s num k) \<and>
      (\<forall>k<length (elements rest). seqs' num (index + 1 + k) = ?a OR mask_of (take (Suc k) (elements rest)))"
    proof (rule "1.IH" [OF False fe refl _ _ refl])
      show "\<not> (x < 0 \<or> 64 \<le> x)" using x by simp
      show "\<not> (MAX_NUMBER \<le> num \<or> 64 \<le> index)" using "1.prems"(3) idx by simp
      show "line_parses rest" by (rule lp)
      show "\<forall>x\<in>set (line_elements rest). 0 \<le> x \<and> x < 64" using "1.prems"(2) le by simp
      show "num < MAX_NUMBER" by (rule "1.prems"(3))
      show "index + 1 + length (line_elements rest) \<le> 64" by (rule idx(2))
    qed
    then obtain seqs' where s:
      "read_line rest ?a (index + 1) num ?s = Inr (?a OR mask_of (elements rest), seqs')"
      "\<forall>r. r \<noteq> num \<longrightarrow> seqs' r = ?s r"
      "\<forall>k<index + 1. seqs' num k = ?s num k"
      "\<forall>k<length (elements rest). seqs' num (index + 1 + k) = ?a OR mask_of (take (Suc k) (elements rest))"
      by blast
    have rl: "read_line line aset index num seqs = read_line rest ?a (index + 1) num ?s"
      using False fe x "1.prems"(3) idx(1) by (subst read_line.simps) (simp add: Let_def)
    have m: "?a OR mask_of es = aset OR mask_of (nat x # es)" for es
      by (simp add: or.assoc)
    show ?thesis
    proof (intro exI [of _ seqs'] conjI allI impI)
      show "read_line line aset index num seqs = Inr (aset OR mask_of (elements line), seqs')"
        using rl s(1) by (simp only: el m)
      show "seqs' r = seqs r" if "r \<noteq> num" for r
        using s(2) that by simp
      show "seqs' num k = seqs num k" if "k < index" for k
        using s(3) that by simp
      show "seqs' num (index + k) = aset OR mask_of (take (Suc k) (elements line))"
        if "k < length (elements line)" for k
      proof (cases k)
        case 0
        then show ?thesis using s(3) by (simp add: el)
      next
        case (Suc j)
        then have "j < length (elements rest)" using that by (simp add: el)
        then have "seqs' num (index + 1 + j) = ?a OR mask_of (take (Suc j) (elements rest))"
          using s(4) by simp
        then show ?thesis unfolding Suc el by (simp only: m take_Suc_Cons) simp
      qed
    qed
  qed
qed

lemma length_valid_line: "valid_line line \<Longrightarrow> length (line_elements line) \<le> 64"
  using valid_length [OF valid_line_elements] by (simp add: elements_def)

lemma read_lines_loads:
  "\<forall>l\<in>set lines. valid_line l \<Longrightarrow> 0 \<le> number g \<Longrightarrow>
   nat (number g) + length lines \<le> MAX_NUMBER \<Longrightarrow>
   \<exists>g'. read_lines lines g = Inr g' \<and> number g' = number g + int (length lines) \<and>
     numbers_of_subsets g' = numbers_of_subsets g \<and>
     (\<forall>i<nat (number g). sets g' i = sets g i \<and> sequences g' i = sequences g i) \<and>
     (\<forall>i<length lines. loaded_row (sets g') (sequences g') (nat (number g) + i) (elements (lines ! i)))"
proof (induction lines arbitrary: g)
  case Nil
  show ?case by simp
next
  case (Cons line rest)
  let ?n = "nat (number g)"
  have vl: "valid_line line" using Cons.prems(1) by simp
  have n: "?n < MAX_NUMBER" using Cons.prems(3) by simp
  obtain seqs' where s:
      "read_line line 0 0 ?n (sequences g) = Inr (0 OR mask_of (elements line), seqs')"
      "\<forall>r. r \<noteq> ?n \<longrightarrow> seqs' r = sequences g r"
      "\<forall>k<length (elements line). seqs' ?n (0 + k) = 0 OR mask_of (take (Suc k) (elements line))"
    using read_line_loads [of line ?n 0 0 "sequences g"] vl n length_valid_line [OF vl]
    by (auto simp: valid_line_def)
  let ?g1 = "g\<lparr>sequences := seqs', sets := (sets g)(?n := mask_of (elements line)),
               number := number g + 1\<rparr>"
  have n1: "nat (number ?g1) = Suc ?n" using Cons.prems(2) by simp
  have "\<exists>g'. read_lines rest ?g1 = Inr g' \<and> number g' = number ?g1 + int (length rest) \<and>
     numbers_of_subsets g' = numbers_of_subsets ?g1 \<and>
     (\<forall>i<nat (number ?g1). sets g' i = sets ?g1 i \<and> sequences g' i = sequences ?g1 i) \<and>
     (\<forall>i<length rest. loaded_row (sets g') (sequences g') (nat (number ?g1) + i) (elements (rest ! i)))"
    using Cons.prems by (intro Cons.IH) simp_all
  then obtain g' where g':
     "read_lines rest ?g1 = Inr g'" "number g' = number ?g1 + int (length rest)"
     "numbers_of_subsets g' = numbers_of_subsets ?g1"
     "\<forall>i<Suc ?n. sets g' i = sets ?g1 i \<and> sequences g' i = sequences ?g1 i"
     "\<forall>i<length rest. loaded_row (sets g') (sequences g') (Suc ?n + i) (elements (rest ! i))"
    unfolding n1 by blast
  have rl: "read_lines (line # rest) g = Inr g'"
    using s(1) n g'(1) by simp
  have row_n: "loaded_row (sets g') (sequences g') ?n (elements line)"
    using g'(4) s(3) valid_line_elements [OF vl]
    by (simp add: loaded_row_def row_of_def)
  show ?case
  proof (intro exI [of _ g'] conjI allI impI)
    show "read_lines (line # rest) g = Inr g'" by (rule rl)
    show "number g' = number g + int (length (line # rest))" using g'(2) by simp
    show "numbers_of_subsets g' = numbers_of_subsets g" using g'(3) by simp
    show "sets g' i = sets g i" if "i < ?n" for i using g'(4) that by simp
    show "sequences g' i = sequences g i" if "i < ?n" for i using g'(4) s(2) that by simp
    show "loaded_row (sets g') (sequences g') (?n + i) (elements ((line # rest) ! i))"
      if "i < length (line # rest)" for i
    proof (cases i)
      case 0
      then show ?thesis using row_n by simp
    next
      case (Suc j)
      then show ?thesis using g'(5) that by simp
    qed
  qed
qed

lemma Read_input_loads:
  assumes "\<forall>l\<in>set lines. valid_line l" and "length lines \<le> MAX_NUMBER"
  shows "\<exists>g. Read_input (Some lines) g0 = Inr (True, g) \<and> number g = int (length lines) \<and>
     numbers_of_subsets g = numbers_of_subsets g0 \<and>
     (\<forall>i<length lines. loaded_row (sets g) (sequences g) i (elements (lines ! i)))"
proof -
  obtain g where "read_lines lines (g0\<lparr>number := 0\<rparr>) = Inr g"
     "number g = int (length lines)" "numbers_of_subsets g = numbers_of_subsets g0"
     "\<forall>i<length lines. loaded_row (sets g) (sequences g) i (elements (lines ! i))"
    using read_lines_loads [of lines "g0\<lparr>number := 0\<rparr>"] assms by auto
  then show ?thesis by (intro exI [of _ g]) (simp add: Read_input_def)
qed

subsection \<open>The counters after all base sets\<close>

lemma cov_Suc: "cov sts (Suc n) k = cov sts n k \<union> newly sts n k"
  by (auto simp: cov_def newly_def less_Suc_eq)

lemma cov_newly_disjoint: "cov sts n k \<inter> newly sts n k = {}"
  by (auto simp: cov_def newly_def)

lemma card_cov_Suc: "card (cov sts (Suc n) k) = card (cov sts n k) + card (newly sts n k)"
  unfolding cov_Suc by (rule card_Un_disjoint) (simp_all add: cov_newly_disjoint)

lemma for_sets_counts:
  assumes rows: "\<forall>j<n. \<exists>es. loaded_row sts seqs j es" and n: "n \<le> MAX_NUMBER"
  shows "i \<le> n \<Longrightarrow>
     \<exists>hist'. for_sets (int n) sts seqs i hist = Some (Inr hist') \<and>
        (\<forall>k. hist' k + of_nat (card (cov sts i k)) = hist k + of_nat (card (cov sts n k)))"
proof (induction "n - i" arbitrary: i hist)
  case 0
  then have "i = n" by simp
  then show ?case by (subst for_sets.simps) simp
next
  case (Suc d)
  then have i: "i < n" by simp
  then obtain es where es: "loaded_row sts seqs i es" using rows by blast
  have "i < MAX_NUMBER" using i n by simp
  from process_set_counts [OF es this, of hist] obtain h1 where h1:
    "process_set sts seqs i hist = Some (Inr h1)"
    "\<forall>k. h1 k = hist k + of_nat (card (newly sts i k))"
    by blast
  have "\<exists>hist'. for_sets (int n) sts seqs (Suc i) h1 = Some (Inr hist') \<and>
        (\<forall>k. hist' k + of_nat (card (cov sts (Suc i) k)) = h1 k + of_nat (card (cov sts n k)))"
    using Suc i by (intro Suc.hyps(1)) simp_all
  then obtain h' where h':
    "for_sets (int n) sts seqs (Suc i) h1 = Some (Inr h')"
    "\<forall>k. h' k + of_nat (card (cov sts (Suc i) k)) = h1 k + of_nat (card (cov sts n k))"
    by blast
  have run: "for_sets (int n) sts seqs i hist = Some (Inr h')"
    using i h1(1) h'(1) by (subst for_sets.simps) simp
  have "h' k + of_nat (card (cov sts i k)) = hist k + of_nat (card (cov sts n k))" for k
  proof -
    have "h' k + of_nat (card (cov sts i k)) + of_nat (card (newly sts i k))
        = hist k + of_nat (card (cov sts n k)) + of_nat (card (newly sts i k))"
      using h'(2) [rule_format, of k] h1(2) [rule_format, of k]
      by (simp add: card_cov_Suc add.assoc add.commute)
    then show ?thesis by simp
  qed
  with run show ?case by blast
qed

lemma cov_0 [simp]: "cov sts 0 k = {}"
  by (simp add: cov_def)

lemma card_cov_covered:
  assumes "\<forall>i<length lines. valid_elements (elements (lines ! i)) \<and> sts i = mask_of (elements (lines ! i))"
  shows "card (cov sts (length lines) k) = covered lines k"
proof -
  have b: "bits (sts i) = set (elements (lines ! i))" if "i < length lines" for i
    using assms that by (simp add: bits_mask_valid)
  have "bits ` cov sts (length lines) k = {X. card X = k \<and> (\<exists>l\<in>set lines. X \<subseteq> set (elements l))}"
  proof (intro equalityI subsetI)
    fix X assume "X \<in> bits ` cov sts (length lines) k"
    then obtain w j where "X = bits w" "card (bits w) = k" "j < length lines" "bits w \<subseteq> bits (sts j)"
      by (auto simp: cov_def)
    then show "X \<in> {X. card X = k \<and> (\<exists>l\<in>set lines. X \<subseteq> set (elements l))}"
      using b [of j] by (auto intro!: bexI [of _ "lines ! j"])
  next
    fix X assume "X \<in> {X. card X = k \<and> (\<exists>l\<in>set lines. X \<subseteq> set (elements l))}"
    then obtain l where X: "card X = k" "l \<in> set lines" "X \<subseteq> set (elements l)" by auto
    then obtain j where j: "j < length lines" "l = lines ! j" by (auto simp: in_set_conv_nth)
    then have "X \<subseteq> bits (sts j)" using X b [of j] by simp
    moreover from this have "X \<subseteq> {..<64}" by (auto dest: bits_bound)
    then obtain w where "bits w = X" using bits_surj by blast
    ultimately show "X \<in> bits ` cov sts (length lines) k"
      using X(1) j(1) by (auto simp: cov_def image_iff intro!: exI [of _ w])
  qed
  moreover have "inj_on bits (cov sts (length lines) k)"
    by (rule inj_onI) (rule bits_inj)
  ultimately show ?thesis
    unfolding covered_def by (metis card_image)
qed

theorem Compute_numbers_counts:
  assumes "\<forall>l\<in>set lines. valid_line l" and "length lines \<le> MAX_NUMBER"
  shows "\<exists>g g'. Read_input (Some lines) g0 = Inr (True, g) \<and>
           Compute_numbers g = Some (Inr g') \<and>
           (\<forall>k. numbers_of_subsets g' k = numbers_of_subsets g0 k + of_nat (covered lines k))"
proof -
  obtain g where g: "Read_input (Some lines) g0 = Inr (True, g)" "number g = int (length lines)"
     "numbers_of_subsets g = numbers_of_subsets g0"
     "\<forall>i<length lines. loaded_row (sets g) (sequences g) i (elements (lines ! i))"
    using Read_input_loads [OF assms, of g0] by blast
  have rows: "\<forall>j<length lines. \<exists>es. loaded_row (sets g) (sequences g) j es"
    using g(4) by blast
  obtain h where h: "for_sets (int (length lines)) (sets g) (sequences g) 0 (numbers_of_subsets g) = Some (Inr h)"
     "\<forall>k. h k + of_nat (card (cov (sets g) 0 k)) = numbers_of_subsets g k + of_nat (card (cov (sets g) (length lines) k))"
    using for_sets_counts [OF rows assms(2), of 0 "numbers_of_subsets g"] by blast
  have c: "card (cov (sets g) (length lines) k) = covered lines k" for k
    using g(4) by (intro card_cov_covered) (simp add: loaded_row_def)
  let ?g' = "g\<lparr>numbers_of_subsets := h\<rparr>"
  have "Compute_numbers g = Some (Inr ?g')"
    using h(1) g(2) by (simp add: Compute_numbers_def)
  moreover have "numbers_of_subsets ?g' k = numbers_of_subsets g0 k + of_nat (covered lines k)" for k
    using h(2) [rule_format, of k] by (simp add: c g(3))
  ultimately show ?thesis using g(1) by blast
qed

subsection \<open>Cardinalities and the recorded walk\<close>

lemma loaded_card:
  assumes "loaded_row sts seqs i es"
  shows "popcount (sts i) = length es" and "bits (sts i) = set es"
  using assms by (simp_all add: loaded_row_def popcount_card bits_mask_valid valid_elements_def distinct_card)

lemma last_not_in_butlast:
  assumes "distinct xs" and "xs \<noteq> []"
  shows "last xs \<notin> set (butlast xs)"
proof -
  have "distinct (butlast xs @ [last xs])" using assms by simp
  then show ?thesis by (simp only: distinct_append) simp
qed

lemma fst_pair_of: "map fst (map pair_of ws) = ws"
  by (induction ws) (simp_all add: pair_of_def)

lemma process_set_visited:
  assumes l: "loaded_row sts seqs i es" and i: "i < MAX_NUMBER"
  shows "\<exists>tr. visited (seqs i) (sts i) 0 0 [] = Some (Inr tr) \<and>
           process_set sts seqs i hist = Some (Inr (foldl (tally sts i) hist (map fst tr)))"
proof -
  have v: "valid_elements es" and r: "row_of (seqs i) es" and a: "sts i = mask_of es"
    using l by (simp_all add: loaded_row_def)
  have "visited (seqs i) (sts i) 0 0 [] = Some (Inr (map pair_of (enum es (length es) 0)))"
    by (rule visited_valid [OF v r a])
  moreover have "process_set sts seqs i hist =
      Some (Inr (foldl (tally sts i) hist (map fst (map pair_of (enum es (length es) 0)))))"
    unfolding fst_pair_of by (rule process_set_valid [OF l i])
  ultimately show ?thesis by blast
qed

lemma subsets_loop_visited:
  assumes l: "loaded_row sts seqs i es"
  shows "\<exists>tr. visited (seqs i) (sts i) 0 0 [] = Some (Inr tr) \<and>
           subsets_loop sts (seqs i) (sts i) i 0 0 hist =
             Some (Inr (int (popcount (sts i)), foldl (tally sts i) hist (map fst (butlast tr))))"
proof -
  have v: "valid_elements es" and r: "row_of (seqs i) es" and a: "sts i = mask_of es"
    using l by (simp_all add: loaded_row_def)
  let ?ws = "enum es (length es) 0"
  have "visited (seqs i) (sts i) 0 0 [] = Some (Inr (map pair_of ?ws))"
    by (rule visited_valid [OF v r a])
  moreover have "map fst (butlast (map pair_of ?ws)) = butlast ?ws"
    by (simp only: map_butlast [symmetric] fst_pair_of)
  then have "subsets_loop sts (seqs i) (sts i) i 0 0 hist =
      Some (Inr (int (popcount (sts i)),
        foldl (tally sts i) hist (map fst (butlast (map pair_of ?ws)))))"
    using subsets_loop_valid [OF v r a, of sts i hist] by (simp add: loaded_card(1) [OF l])
  ultimately show ?thesis by blast
qed

lemma newly_by_masks:
  "newly sts i k = {w. w AND sts i = w \<and> popcount w = k \<and> \<not> contained_loop sts w i 0}"
  by (auto simp: newly_def AND_eq_iff popcount_card contained_loop_iff)

lemma pass_of_set:
  assumes l: "loaded_row sts seqs i es" and i: "i < MAX_NUMBER"
  shows "\<exists>tr. visited (seqs i) (sts i) 0 0 [] = Some (Inr tr) \<and>
     (\<forall>hist. subsets_loop sts (seqs i) (sts i) i 0 0 hist =
               Some (Inr (int (popcount (sts i)), foldl (tally sts i) hist (map fst (butlast tr)))) \<and>
             process_set sts seqs i hist = Some (Inr (foldl (tally sts i) hist (map fst tr))))"
proof -
  obtain tr where tr: "visited (seqs i) (sts i) 0 0 [] = Some (Inr tr)"
    using process_set_visited [OF l i] by blast
  have "subsets_loop sts (seqs i) (sts i) i 0 0 hist =
          Some (Inr (int (popcount (sts i)), foldl (tally sts i) hist (map fst (butlast tr))))" for hist
    using subsets_loop_visited [OF l, of hist] tr by auto
  moreover have "process_set sts seqs i hist = Some (Inr (foldl (tally sts i) hist (map fst tr)))" for hist
    using process_set_visited [OF l i, of hist] tr by auto
  ultimately show ?thesis using tr by blast
qed

lemma foldl_tally_contained:
  "\<forall>w\<in>set ws. contained_loop sts w i 0 \<Longrightarrow> foldl (tally sts i) hist ws = hist"
  by (induction ws arbitrary: hist) (simp_all add: tally_def)

subsection \<open>The large inputs\<close>

lemma elements_line_0_to_33: "elements line_0_to_33 = [0..<34]"
  by code_simp

lemma valid_line_0_to_33: "valid_line line_0_to_33"
  by code_simp

lemma elements_big_A: "elements big_A = [0..<35]"
  by code_simp

lemma elements_big_B1: "elements big_B1 = [0..<16] @ [35..<52]"
  by code_simp

lemma elements_big_B2: "elements big_B2 = [0..<20] @ [52..<58]"
  by code_simp

lemma elements_big_B3: "elements big_B3 = [0..<24] @ [58..<59]"
  by code_simp

lemma elements_big_B4: "elements big_B4 = [0..<20] @ [59..<61]"
  by code_simp

lemma elements_big_B5: "elements big_B5 = [0..<20] @ [61..<62]"
  by code_simp

lemma elements_big_B6: "elements big_B6 = [0..<16] @ [62..<63]"
  by code_simp

lemma valid_big_input: "\<forall>l\<in>set big_input. valid_line l"
  by code_simp

subsection \<open>Counting covered sets\<close>

lemma covered_cover: "covered lines k = cover ((\<lambda>l. set (elements l)) ` set lines) k"
  by (simp add: covered_def cover_def)

lemma cover_single:
  assumes "finite A" shows "cover {A} k = card A choose k"
proof -
  have "{X. card X = k \<and> (\<exists>S\<in>{A}. X \<subseteq> S)} = {X. X \<subseteq> A \<and> card X = k}" by auto
  then show ?thesis using n_subsets [OF assms, of k] by (simp add: cover_def)
qed

lemma cover_insert:
  assumes F: "finite F" "\<forall>S\<in>F. finite S" and B: "finite B"
    and J: "J \<subseteq> B" "J \<subseteq> A" "A \<in> F" and meet: "\<forall>S\<in>F. B \<inter> S \<subseteq> J"
  shows "cover (insert B F) k + (card J choose k) = cover F k + (card B choose k)"
proof -
  let ?Old = "{X. card X = k \<and> (\<exists>S\<in>F. X \<subseteq> S)}"
  let ?PB = "{X. X \<subseteq> B \<and> card X = k}"
  let ?PJ = "{X. X \<subseteq> J \<and> card X = k}"
  have fJ: "finite J" using J(1) B by (rule finite_subset)
  have fO: "finite ?Old"
  proof (rule finite_subset)
    show "?Old \<subseteq> Pow (\<Union>F)" by auto
    show "finite (Pow (\<Union>F))" using F by simp
  qed
  have fB: "finite ?PB"
    by (rule finite_subset [of _ "Pow B"]) (use B in auto)
  have un: "{X. card X = k \<and> (\<exists>S\<in>insert B F. X \<subseteq> S)} = ?Old \<union> ?PB" by auto
  have int: "?Old \<inter> ?PB = ?PJ"
  proof (intro equalityI subsetI)
    fix X assume "X \<in> ?Old \<inter> ?PB"
    then obtain S where "S \<in> F" "X \<subseteq> S" "X \<subseteq> B" "card X = k" by auto
    with meet show "X \<in> ?PJ" by auto
  next
    fix X assume "X \<in> ?PJ"
    with J show "X \<in> ?Old \<inter> ?PB" by auto
  qed
  have "card ?Old + card ?PB = card (?Old \<union> ?PB) + card (?Old \<inter> ?PB)"
    by (rule card_Un_Int [OF fO fB])
  then show ?thesis
    unfolding cover_def un int n_subsets [OF B] n_subsets [OF fJ] by simp
qed

lemma covered_single:
  assumes "valid_line l" shows "covered [l] k = length (line_elements l) choose k"
proof -
  have "distinct (elements l)"
    using valid_line_elements [OF assms] by (simp add: valid_elements_def)
  then have "card (set (elements l)) = length (elements l)"
    by (rule distinct_card)
  then have "card (set (elements l)) = length (line_elements l)"
    by (simp add: elements_def)
  then show ?thesis by (simp add: covered_cover cover_single)
qed

lemma write_loop_stops:
  "hist k = 0 \<Longrightarrow> i \<le> k \<Longrightarrow> length (write_loop hist i) \<le> k - i"
proof (induction "k - i" arbitrary: i)
  case 0
  then show ?case by (subst write_loop.simps) simp
next
  case (Suc d)
  then have "length (write_loop hist (i + 1)) \<le> k - (i + 1)"
    by (intro Suc.hyps(1)) simp_all
  with Suc.prems Suc.hyps(2) show ?case by (subst write_loop.simps) auto
qed

lemma run_line_0_to_33:
  "\<exists>g g'. Read_input (Some [line_0_to_33]) initial = Inr (True, g) \<and>
      Compute_numbers g = Some (Inr g') \<and>
      (\<forall>k. numbers_of_subsets g' k = of_nat (34 choose k))"
proof -
  have v: "\<forall>l\<in>set [line_0_to_33]. valid_line l" by (simp add: valid_line_0_to_33)
  have n: "length [line_0_to_33] \<le> MAX_NUMBER" by (simp add: MAX_NUMBER_def)
  have "length (line_elements line_0_to_33) = 34"
    using arg_cong [OF elements_line_0_to_33, of length] by (simp add: elements_def)
  then have "covered [line_0_to_33] k = 34 choose k" for k
    by (simp add: covered_single [OF valid_line_0_to_33])
  then show ?thesis
    using Compute_numbers_counts [OF v n, of initial] by (simp add: initial_def)
qed

lemma card_two_intervals:
  "b \<le> c \<Longrightarrow> card ({a..<b} \<union> {c..<d::nat}) = (b - a) + (d - c)"
  by (subst card_Un_disjoint) auto

lemma big_family_cover:
  defines "A \<equiv> {0..<35::nat}"
    and "B1 \<equiv> {0..<16} \<union> {35..<52::nat}"
    and "B2 \<equiv> {0..<20} \<union> {52..<58::nat}"
    and "B3 \<equiv> {0..<24} \<union> {58..<59::nat}"
    and "B4 \<equiv> {0..<20} \<union> {59..<61::nat}"
    and "B5 \<equiv> {0..<20} \<union> {61..<62::nat}"
    and "B6 \<equiv> {0..<16} \<union> {62..<63::nat}"
  shows "cover {A, B1, B2, B3, B4, B5, B6} k
           + ((16 choose k) + (20 choose k) + (24 choose k) + (20 choose k) + (20 choose k) + (16 choose k))
         = (35 choose k)
           + ((33 choose k) + (26 choose k) + (25 choose k) + (22 choose k) + (21 choose k) + (17 choose k))"
proof -
  have 0: "cover {A} k = 35 choose k"
    by (simp add: cover_single A_def)
  have "cover (insert B1 {A}) k + (card {0..<16::nat} choose k) = cover {A} k + (card B1 choose k)"
    by (rule cover_insert [where A = A]) (auto simp: A_def B1_def)
  then have 1: "cover (insert B1 {A}) k + (16 choose k) = cover {A} k + (33 choose k)"
    by (simp add: B1_def card_two_intervals)
  have "cover (insert B2 {B1, A}) k + (card {0..<20::nat} choose k) = cover {B1, A} k + (card B2 choose k)"
    by (rule cover_insert [where A = A]) (auto simp: A_def B1_def B2_def)
  then have 2: "cover (insert B2 {B1, A}) k + (20 choose k) = cover {B1, A} k + (26 choose k)"
    by (simp add: B2_def card_two_intervals)
  have "cover (insert B3 {B2, B1, A}) k + (card {0..<24::nat} choose k) = cover {B2, B1, A} k + (card B3 choose k)"
    by (rule cover_insert [where A = A]) (auto simp: A_def B1_def B2_def B3_def)
  then have 3: "cover (insert B3 {B2, B1, A}) k + (24 choose k) = cover {B2, B1, A} k + (25 choose k)"
    by (simp add: B3_def card_two_intervals)
  have "cover (insert B4 {B3, B2, B1, A}) k + (card {0..<20::nat} choose k) = cover {B3, B2, B1, A} k + (card B4 choose k)"
    by (rule cover_insert [where A = A]) (auto simp: A_def B1_def B2_def B3_def B4_def)
  then have 4: "cover (insert B4 {B3, B2, B1, A}) k + (20 choose k) = cover {B3, B2, B1, A} k + (22 choose k)"
    by (simp add: B4_def card_two_intervals)
  have "cover (insert B5 {B4, B3, B2, B1, A}) k + (card {0..<20::nat} choose k) = cover {B4, B3, B2, B1, A} k + (card B5 choose k)"
    by (rule cover_insert [where A = A]) (auto simp: A_def B1_def B2_def B3_def B4_def B5_def)
  then have 5: "cover (insert B5 {B4, B3, B2, B1, A}) k + (20 choose k) = cover {B4, B3, B2, B1, A} k + (21 choose k)"
    by (simp add: B5_def card_two_intervals)
  have "cover (insert B6 {B5, B4, B3, B2, B1, A}) k + (card {0..<16::nat} choose k) = cover {B5, B4, B3, B2, B1, A} k + (card B6 choose k)"
    by (rule cover_insert [where A = A]) (auto simp: A_def B1_def B2_def B3_def B4_def B5_def B6_def)
  then have 6: "cover (insert B6 {B5, B4, B3, B2, B1, A}) k + (16 choose k) = cover {B5, B4, B3, B2, B1, A} k + (17 choose k)"
    by (simp add: B6_def card_two_intervals)
  have eq: "{A, B1, B2, B3, B4, B5, B6} = insert B6 {B5, B4, B3, B2, B1, A}" by blast
  show ?thesis unfolding eq using 0 1 2 3 4 5 6 by linarith
qed

lemma covered_big_input:
  "covered big_input k
           + ((16 choose k) + (20 choose k) + (24 choose k) + (20 choose k) + (20 choose k) + (16 choose k))
         = (35 choose k)
           + ((33 choose k) + (26 choose k) + (25 choose k) + (22 choose k) + (21 choose k) + (17 choose k))"
proof -
  have "(\<lambda>l. set (elements l)) ` set big_input =
     {{0..<35}, {0..<16} \<union> {35..<52}, {0..<20} \<union> {52..<58}, {0..<24} \<union> {58..<59},
      {0..<20} \<union> {59..<61}, {0..<20} \<union> {61..<62}, {0..<16} \<union> {62..<63}}"
    by (simp only: big_input_def list.set image_insert image_empty set_append set_upt
          elements_big_A elements_big_B1 elements_big_B2 elements_big_B3
          elements_big_B4 elements_big_B5 elements_big_B6)
  then show ?thesis
    unfolding covered_cover by (simp only: big_family_cover)
qed

lemma covered_big_input_15: "covered big_input 15 = 4294967296"
  using covered_big_input [of 15] by (simp add: binomial_fact' fact_numeral)

lemma covered_big_input_16: "covered big_input 16 = 5233431741"
  using covered_big_input [of 16] by (simp add: binomial_fact' fact_numeral)

subsection \<open>Worked examples\<close>

lemma scenario_A_histogram: "histogram scenario_A = Some [1, 9, 18, 15, 6, 1]"
  by code_simp

lemma scenario_B_histogram: "histogram [''0,1,2''] = Some [1, 3, 3, 1]"
  by code_simp

lemma scenario_C_histogram: "histogram [''0,1'', ''0,1''] = Some [1, 2, 1]"
  by code_simp

lemma scenario_E_histogram: "histogram [] = Some []"
  by code_simp

text \<open>
  A line that repeats an element is not a valid line: on \<^verbatim>\<open>1,1,2\<close> the third successor step
  subtracts one from \<^verbatim>\<open>size\<close> for the repeated entry, and the subsets \<open>{2}\<close> and \<open>{1,2}\<close> are
  counted at the sizes 0 and 1.
\<close>

lemma repeated_element_histogram: "histogram [''1,1,2''] = Some [2, 2]"
  by code_simp

text \<open>
  A line with an empty element is not a valid line either: on \<^verbatim>\<open>3,,5\<close> the second call of
  \<^verbatim>\<open>First_element\<close> returns a variable that was never written.
\<close>

lemma empty_element_not_valid:
  "\<not> valid_line ''3,,5''"
  by code_simp

lemma empty_element_read:
  "(case Read_input (Some [''3,,5'']) initial of Inl e \<Rightarrow> e = Uninitialised_read | Inr r \<Rightarrow> False)"
  by code_simp

lemma valid_scenario_A: "\<forall>l\<in>set scenario_A. valid_line l"
  by code_simp

lemma length_scenario_A: "length scenario_A \<le> MAX_NUMBER"
  by (simp add: scenario_A_def MAX_NUMBER_def)

lemma popcount_0 [simp]: "popcount 0 = 0"
  by (simp add: popcount_def)

lemma Read_input_row:
  assumes "\<forall>l\<in>set lines. valid_line l" and "length lines \<le> MAX_NUMBER" and "i < length lines"
    and "Read_input (Some lines) initial = Inr (True, g)"
  shows "popcount (sets g i) = length (line_elements (lines ! i))"
proof -
  obtain g2 where g2: "Read_input (Some lines) initial = Inr (True, g2)"
     "\<forall>i<length lines. loaded_row (sets g2) (sequences g2) i (elements (lines ! i))"
    using Read_input_loads [OF assms(1,2), of initial] by blast
  then have "g2 = g" using assms(4) by simp
  with g2(2) assms(3) show ?thesis
    using loaded_card(1) [of "sets g" "sequences g" i "elements (lines ! i)"]
    by (simp add: elements_def)
qed

subsection \<open>Counters that stay in range\<close>

lemma finite_covered_level:
  "finite {X. card X = k \<and> (\<exists>l\<in>set lines. X \<subseteq> set (elements l))}"
proof (rule finite_subset)
  show "{X. card X = k \<and> (\<exists>l\<in>set lines. X \<subseteq> set (elements l))}
          \<subseteq> Pow (\<Union>l\<in>set lines. set (elements l))"
    by auto
  show "finite (Pow (\<Union>l\<in>set lines. set (elements l)))" by simp
qed

lemma covered_prefix:
  assumes "covered lines k = 0" shows "covered lines (Suc k) = 0"
proof (rule ccontr)
  let ?L = "\<lambda>k. {X. card X = k \<and> (\<exists>l\<in>set lines. X \<subseteq> set (elements l))}"
  assume "covered lines (Suc k) \<noteq> 0"
  then have "?L (Suc k) \<noteq> {}" unfolding covered_def by auto
  then obtain X l where X: "card X = Suc k" "l \<in> set lines" "X \<subseteq> set (elements l)"
    by auto
  have "X \<noteq> {}" using X(1) by auto
  then obtain x where x: "x \<in> X" by auto
  have "finite X" using X(3) by (rule finite_subset) simp
  then have "card (X - {x}) = k" using X(1) x by simp
  moreover have "X - {x} \<subseteq> set (elements l)" using X(3) by auto
  ultimately have "X - {x} \<in> ?L k" using X(2) by auto
  then have "?L k \<noteq> {}" by auto
  then have "card (?L k) \<noteq> 0" using finite_covered_level [of k lines] by simp
  with assms show False by (simp add: covered_def)
qed

lemma counts_exact_without_overflow:
  assumes "\<forall>l\<in>set lines. valid_line l" and "length lines \<le> MAX_NUMBER"
  shows "\<exists>g g'. Read_input (Some lines) initial = Inr (True, g) \<and>
           Compute_numbers g = Some (Inr g') \<and>
           (\<forall>k. covered lines k < 2 ^ 31 \<longrightarrow> sint (numbers_of_subsets g' k) = int (covered lines k))"
proof -
  obtain g g' where g: "Read_input (Some lines) initial = Inr (True, g)"
      "Compute_numbers g = Some (Inr g')"
      "\<forall>k. numbers_of_subsets g' k = numbers_of_subsets initial k + of_nat (covered lines k)"
    using Compute_numbers_counts [OF assms, of initial] by blast
  have "sint (numbers_of_subsets g' k) = int (covered lines k)" if "covered lines k < 2 ^ 31" for k
  proof -
    have "numbers_of_subsets g' k = (of_nat (covered lines k) :: cint)"
      using g(3) by (simp add: initial_def)
    then have "sint (numbers_of_subsets g' k) = signed_take_bit 31 (int (covered lines k))"
      by (simp add: signed_of_nat)
    also have "\<dots> = int (covered lines k)"
      using that by (intro signed_take_bit_int_eq_self) simp_all
    finally show ?thesis .
  qed
  with g(1,2) show ?thesis by blast
qed

lemma support_is_prefix_without_overflow:
  assumes "\<forall>l\<in>set lines. valid_line l" and "length lines \<le> MAX_NUMBER"
    and "\<forall>k. covered lines k < 2 ^ 32"
  shows "\<exists>g g'. Read_input (Some lines) initial = Inr (True, g) \<and>
           Compute_numbers g = Some (Inr g') \<and>
           (\<forall>k. numbers_of_subsets g' k = 0 \<longrightarrow> numbers_of_subsets g' (Suc k) = 0)"
proof -
  obtain g g' where g: "Read_input (Some lines) initial = Inr (True, g)"
      "Compute_numbers g = Some (Inr g')"
      "\<forall>k. numbers_of_subsets g' k = numbers_of_subsets initial k + of_nat (covered lines k)"
    using Compute_numbers_counts [OF assms(1,2), of initial] by blast
  have eq: "numbers_of_subsets g' k = (of_nat (covered lines k) :: cint)" for k
    using g(3) by (simp add: initial_def)
  have "numbers_of_subsets g' (Suc k) = 0" if "numbers_of_subsets g' k = 0" for k
  proof -
    have "(of_nat (covered lines k) :: cint) = 0" using that eq by simp
    moreover have "covered lines k < 2 ^ LENGTH(32)" using assms(3) by simp
    ultimately have "covered lines k = 0"
      by (auto simp: word_of_nat_eq_0_iff dest: dvd_imp_le)
    then have "covered lines (Suc k) = 0" by (rule covered_prefix)
    then show ?thesis by (simp add: eq)
  qed
  with g(1,2) show ?thesis by blast
qed

section \<open>The claims\<close>

text \<open>
  In every statement the state \<open>g\<close> is the one \<^verbatim>\<open>Read_input\<close> leaves from the initial state on
  the given lines, and \<open>g'\<close> the one \<^verbatim>\<open>Compute_numbers\<close> leaves from \<open>g\<close>.
\<close>

subsection \<open>C1: the numbers are the numbers of covered sets\<close>

text \<open>
  Claim C1 says that for every valid input of at most 1000 nonempty base sets,
  \<^verbatim>\<open>numbers_of_subsets[k]\<close> is the number of sets of \<open>k\<close> elements that are a subset of at
  least one base set. The counters are \<^verbatim>\<open>int\<close>: by \<open>Compute_numbers_counts\<close> they hold that
  number modulo \<open>2\<^sup>3\<^sup>2\<close>, and by \<open>counts_exact_without_overflow\<close> the number itself while it is
  below \<open>2\<^sup>3\<^sup>1\<close> (so in the example of the header, \<open>scenario_A_histogram\<close>). For the one
  base set \<open>{0,...,33}\<close> there are 2203961430 sets of 16 elements, more than an \<^verbatim>\<open>int\<close>
  holds, and the counter reads \<open>-2091005866\<close>.
\<close>

theorem C1_counter_overflows:
  "\<exists>g g'. Read_input (Some [line_0_to_33]) initial = Inr (True, g) \<and>
      Compute_numbers g = Some (Inr g') \<and>
      covered [line_0_to_33] 16 = 2203961430 \<and>
      sint (numbers_of_subsets g' 16) = - 2091005866"
proof -
  have c: "(34::nat) choose 16 = 2203961430"
    by (simp add: binomial_fact' fact_numeral)
  have "length (line_elements line_0_to_33) = 34"
    using arg_cong [OF elements_line_0_to_33, of length] by (simp add: elements_def)
  then have "covered [line_0_to_33] 16 = 2203961430"
    by (simp add: covered_single [OF valid_line_0_to_33] c)
  moreover have "sint (of_nat (34 choose 16) :: cint) = - 2091005866"
    unfolding c by simp
  ultimately show ?thesis using run_line_0_to_33 by auto
qed

text \<open>
  For C1: on that input the counter differs from the number of covered sets.
\<close>

theorem C1_witness:
  "\<exists>g g'. Read_input (Some [line_0_to_33]) initial = Inr (True, g) \<and>
      Compute_numbers g = Some (Inr g') \<and>
      sint (numbers_of_subsets g' 16) \<noteq> int (covered [line_0_to_33] 16)"
  using C1_counter_overflows by auto

subsection \<open>C2: every subset is visited once\<close>

text \<open>
  Claim C2: for each base set \<open>A\<^sub>i\<close> of a valid input, the loop that starts from the empty
  subset and replaces \<open>subset\<close> by \<open>subset XOR sequences[i][t]\<close>, \<open>t\<close> the first index whose
  entry is not contained in \<open>subset\<close>, returns, and the values of \<open>subset\<close> at its condition
  are \<open>2\<close> to the power \<open>|A\<^sub>i|\<close> many, pairwise different, exactly the subsets of
  \<open>A\<^sub>i\<close>, with \<open>A\<^sub>i\<close> itself the last one and never one of those before. The counting
  loop of \<^verbatim>\<open>Compute_numbers\<close> itself, from any counters, returns with \<open>size = |A\<^sub>i|\<close> and
  the counters that the loop body leaves after the subsets before the last, one pass for
  each in this order; and the whole pass for \<open>A\<^sub>i\<close>, with its check after the loop, returns
  the counters after one pass of the body for every subset, \<open>A\<^sub>i\<close> included.
\<close>

theorem C2_visits_every_subset_once:
  assumes "\<forall>l\<in>set lines. valid_line l" and "length lines \<le> MAX_NUMBER" and "i < length lines"
  shows "\<exists>g tr. Read_input (Some lines) initial = Inr (True, g) \<and>
     visited (sequences g i) (sets g i) 0 0 [] = Some (Inr tr) \<and>
     length tr = 2 ^ popcount (sets g i) \<and>
     distinct (map fst tr) \<and>
     set (map fst tr) = {w. w AND sets g i = w} \<and>
     fst (last tr) = sets g i \<and>
     sets g i \<notin> set (map fst (butlast tr)) \<and>
     (\<forall>hist.
        subsets_loop (sets g) (sequences g i) (sets g i) i 0 0 hist =
          Some (Inr (int (popcount (sets g i)),
                     foldl (tally (sets g) i) hist (map fst (butlast tr)))) \<and>
        process_set (sets g) (sequences g) i hist =
          Some (Inr (foldl (tally (sets g) i) hist (map fst tr))))"
proof -
  obtain g where g: "Read_input (Some lines) initial = Inr (True, g)"
     "\<forall>i<length lines. loaded_row (sets g) (sequences g) i (elements (lines ! i))"
    using Read_input_loads [OF assms(1,2), of initial] by blast
  let ?es = "elements (lines ! i)"
  let ?ws = "enum ?es (length ?es) 0"
  have l: "loaded_row (sets g) (sequences g) i ?es" using g(2) assms(3) by simp
  then have v: "valid_elements ?es" and r: "row_of (sequences g i) ?es" and a: "sets g i = mask_of ?es"
    by (simp_all add: loaded_row_def)
  have tr: "visited (sequences g i) (sets g i) 0 0 [] = Some (Inr (map pair_of ?ws))"
    by (rule visited_valid [OF v r a])
  have 1: "length (map pair_of ?ws) = 2 ^ popcount (sets g i)"
    by (simp add: length_enum loaded_card(1) [OF l])
  have 2: "distinct (map fst (map pair_of ?ws))"
    unfolding fst_pair_of by (rule distinct_enum_all [OF v])
  have 3: "set (map fst (map pair_of ?ws)) = {w. w AND sets g i = w}"
    unfolding fst_pair_of by (simp add: set_enum_all [OF v] AND_eq_iff loaded_card(2) [OF l])
  have lst: "last ?ws = sets g i"
    using last_enum [OF v, of "length ?es" 0] by (simp add: a)
  have 4: "fst (last (map pair_of ?ws)) = sets g i"
    by (simp add: last_map pair_of_def lst)
  have "last ?ws \<notin> set (butlast ?ws)"
    by (rule last_not_in_butlast [OF distinct_enum_all [OF v]]) simp
  then have 5: "sets g i \<notin> set (map fst (butlast (map pair_of ?ws)))"
    by (simp only: lst map_butlast [symmetric] fst_pair_of) simp
  have im: "i < MAX_NUMBER" using assms(2,3) by simp
  obtain tr' where tr': "visited (sequences g i) (sets g i) 0 0 [] = Some (Inr tr')"
    "\<forall>hist. subsets_loop (sets g) (sequences g i) (sets g i) i 0 0 hist =
               Some (Inr (int (popcount (sets g i)),
                 foldl (tally (sets g) i) hist (map fst (butlast tr')))) \<and>
             process_set (sets g) (sequences g) i hist =
               Some (Inr (foldl (tally (sets g) i) hist (map fst tr')))"
    using pass_of_set [OF l im] by blast
  have "tr' = map pair_of ?ws" using tr tr'(1) by simp
  with tr'(2) have 6: "\<forall>hist.
        subsets_loop (sets g) (sequences g i) (sets g i) i 0 0 hist =
          Some (Inr (int (popcount (sets g i)),
                     foldl (tally (sets g) i) hist (map fst (butlast (map pair_of ?ws))))) \<and>
        process_set (sets g) (sequences g) i hist =
          Some (Inr (foldl (tally (sets g) i) hist (map fst (map pair_of ?ws))))"
    by simp
  from g(1) tr 1 2 3 4 5 6 show ?thesis by blast
qed

text \<open>
  For C2: the second base set of the header's example.
\<close>

theorem C2_witness:
  "valid_line (scenario_A ! 0) \<and> valid_line (scenario_A ! 1) \<and> valid_line (scenario_A ! 2) \<and>
   length scenario_A \<le> MAX_NUMBER \<and> (1::nat) < length scenario_A \<and>
   (\<exists>g tr. Read_input (Some scenario_A) initial = Inr (True, g) \<and>
     visited (sequences g 1) (sets g 1) 0 0 [] = Some (Inr tr) \<and>
     length tr = 2 ^ popcount (sets g 1) \<and>
     distinct (map fst tr) \<and>
     set (map fst tr) = {w. w AND sets g 1 = w} \<and>
     fst (last tr) = sets g 1 \<and>
     sets g 1 \<notin> set (map fst (butlast tr)) \<and>
     (\<forall>hist.
        subsets_loop (sets g) (sequences g 1) (sets g 1) 1 0 0 hist =
          Some (Inr (int (popcount (sets g 1)),
                     foldl (tally (sets g) 1) hist (map fst (butlast tr)))) \<and>
        process_set (sets g) (sequences g) 1 hist =
          Some (Inr (foldl (tally (sets g) 1) hist (map fst tr)))))"
proof -
  have v: "valid_line (scenario_A ! 0) \<and> valid_line (scenario_A ! 1) \<and> valid_line (scenario_A ! 2)"
    using valid_scenario_A by (simp add: scenario_A_def)
  have i: "(1::nat) < length scenario_A" by (simp add: scenario_A_def)
  from v length_scenario_A i
    C2_visits_every_subset_once [OF valid_scenario_A length_scenario_A i]
  show ?thesis by (intro conjI) simp_all
qed

subsection \<open>C3: the search stays inside the row\<close>

text \<open>
  Claim C3: for a base set \<open>A\<^sub>i\<close> of a valid input and every proper subset \<open>sub\<close> of it,
  the search \<^verbatim>\<open>while ((subset | sequences[i][index]) == subset) index++\<close> from index 0 ends at
  an index \<open>t\<close> below \<open>|A\<^sub>i|\<close>, which is the number of entries written for the line and at
  most 64: no cell outside the written part of the row is read.
\<close>

theorem C3_search_stays_in_row:
  assumes "\<forall>l\<in>set lines. valid_line l" and "length lines \<le> MAX_NUMBER" and "i < length lines"
  shows "\<exists>g. Read_input (Some lines) initial = Inr (True, g) \<and>
     popcount (sets g i) = length (line_elements (lines ! i)) \<and>
     popcount (sets g i) \<le> 64 \<and>
     (\<forall>sub. sub AND sets g i = sub \<and> sub \<noteq> sets g i \<longrightarrow>
        (\<exists>t. search (sequences g i) sub 0 = Inr t \<and> t < popcount (sets g i)))"
proof -
  obtain g where g: "Read_input (Some lines) initial = Inr (True, g)"
     "\<forall>i<length lines. loaded_row (sets g) (sequences g) i (elements (lines ! i))"
    using Read_input_loads [OF assms(1,2), of initial] by blast
  let ?es = "elements (lines ! i)"
  have l: "loaded_row (sets g) (sequences g) i ?es" using g(2) assms(3) by simp
  then have v: "valid_elements ?es" and r: "row_of (sequences g i) ?es"
    by (simp_all add: loaded_row_def)
  have pc: "popcount (sets g i) = length ?es" by (rule loaded_card(1) [OF l])
  have 1: "popcount (sets g i) = length (line_elements (lines ! i))"
    by (simp add: pc elements_def)
  have 2: "popcount (sets g i) \<le> 64"
    using valid_length [OF v] by (simp add: pc)
  have 3: "\<exists>t. search (sequences g i) sub 0 = Inr t \<and> t < popcount (sets g i)"
    if "sub AND sets g i = sub \<and> sub \<noteq> sets g i" for sub
  proof -
    have "bits sub \<subseteq> set ?es" using that by (simp add: AND_eq_iff loaded_card(2) [OF l])
    moreover have "bits sub \<noteq> set ?es"
      using that bits_inj [of sub "sets g i"] by (auto simp: loaded_card(2) [OF l])
    ultimately obtain t where t: "t < length ?es" "\<forall>k<t. ?es ! k \<in> bits sub" "?es ! t \<notin> bits sub"
      by (rule first_missing)
    have "search (sequences g i) sub 0 = Inr t" by (rule search_valid [OF v r t])
    with t(1) show ?thesis by (simp add: pc)
  qed
  from g(1) 1 2 3 show ?thesis by blast
qed

text \<open>
  For C3: the second base set of the header's example and the empty subset.
\<close>

theorem C3_witness:
  "valid_line (scenario_A ! 0) \<and> valid_line (scenario_A ! 1) \<and> valid_line (scenario_A ! 2) \<and>
   length scenario_A \<le> MAX_NUMBER \<and> (1::nat) < length scenario_A \<and>
   (\<exists>g. Read_input (Some scenario_A) initial = Inr (True, g) \<and>
      popcount (sets g 1) = 5 \<and> 0 AND sets g 1 = 0 \<and> 0 \<noteq> sets g 1 \<and>
      (\<exists>t. search (sequences g 1) 0 0 = Inr t \<and> t < 5))"
proof -
  have v: "valid_line (scenario_A ! 0) \<and> valid_line (scenario_A ! 1) \<and> valid_line (scenario_A ! 2)"
    using valid_scenario_A by (simp add: scenario_A_def)
  have i: "(1::nat) < length scenario_A" by (simp add: scenario_A_def)
  have n: "length (line_elements (scenario_A ! 1)) = 5" by code_simp
  obtain g where g: "Read_input (Some scenario_A) initial = Inr (True, g)"
     "popcount (sets g 1) = length (line_elements (scenario_A ! 1))"
     "\<forall>sub. sub AND sets g 1 = sub \<and> sub \<noteq> sets g 1 \<longrightarrow>
        (\<exists>t. search (sequences g 1) sub 0 = Inr t \<and> t < popcount (sets g 1))"
    using C3_search_stays_in_row [OF valid_scenario_A length_scenario_A i] by blast
  have p: "popcount (sets g 1) = 5" using g(2) n by simp
  then have ne: "0 \<noteq> sets g 1" using popcount_0 by auto
  then have "\<exists>t. search (sequences g 1) 0 0 = Inr t \<and> t < 5"
    using g(3) [rule_format, of 0] p by simp
  with g(1) p ne have "\<exists>g. Read_input (Some scenario_A) initial = Inr (True, g) \<and>
      popcount (sets g 1) = 5 \<and> 0 AND sets g 1 = 0 \<and> 0 \<noteq> sets g 1 \<and>
      (\<exists>t. search (sequences g 1) 0 0 = Inr t \<and> t < 5)"
    by (intro exI [of _ g]) simp
  with v length_scenario_A i show ?thesis by (intro conjI) simp_all
qed

subsection \<open>C4: size is the cardinality of subset\<close>

text \<open>
  Claim C4: for a base set of a valid input, the successor step taken from any proper subset
  with \<open>size\<close> equal to its cardinality yields a subset and a \<open>size\<close> equal to the
  cardinality of that subset; and at every evaluation of the loop's condition, the final
  one included, \<open>size\<close> is the cardinality of \<open>subset\<close>. So the counting loop of
  \<^verbatim>\<open>Compute_numbers\<close> leaves with \<open>size = |A\<^sub>i|\<close>, every increment it and the check after it
  make is at the cardinality of the subset counted, and after the pass for \<open>A\<^sub>i\<close> each
  counter \<open>k\<close> has grown by the number of subsets of \<open>A\<^sub>i\<close> with \<open>k\<close> elements that no
  earlier base set contains. (The elements of a valid line are distinct; with a repeated
  element the step removes fewer elements than it subtracts.)
\<close>

theorem C4_size_is_popcount:
  assumes "\<forall>l\<in>set lines. valid_line l" and "length lines \<le> MAX_NUMBER" and "i < length lines"
  shows "\<exists>g tr. Read_input (Some lines) initial = Inr (True, g) \<and>
     (\<forall>sub. sub AND sets g i = sub \<and> sub \<noteq> sets g i \<longrightarrow>
        (\<exists>sub'. successor (sequences g i) sub (int (popcount sub)) = Inr (sub', int (popcount sub')))) \<and>
     visited (sequences g i) (sets g i) 0 0 [] = Some (Inr tr) \<and>
     (\<forall>(sub, sz)\<in>set tr. sz = int (popcount sub)) \<and>
     (\<forall>hist.
        subsets_loop (sets g) (sequences g i) (sets g i) i 0 0 hist =
          Some (Inr (int (popcount (sets g i)),
                     foldl (tally (sets g) i) hist (map fst (butlast tr)))) \<and>
        process_set (sets g) (sequences g) i hist =
          Some (Inr (foldl (tally (sets g) i) hist (map fst tr))) \<and>
        (\<forall>k. foldl (tally (sets g) i) hist (map fst tr) k =
           hist k + of_nat (card {w. w AND sets g i = w \<and> popcount w = k \<and>
                                    \<not> contained_loop (sets g) w i 0})))"
proof -
  obtain g where g: "Read_input (Some lines) initial = Inr (True, g)"
     "\<forall>i<length lines. loaded_row (sets g) (sequences g) i (elements (lines ! i))"
    using Read_input_loads [OF assms(1,2), of initial] by blast
  let ?es = "elements (lines ! i)"
  let ?ws = "enum ?es (length ?es) 0"
  have l: "loaded_row (sets g) (sequences g) i ?es" using g(2) assms(3) by simp
  then have v: "valid_elements ?es" and r: "row_of (sequences g i) ?es" and a: "sets g i = mask_of ?es"
    by (simp_all add: loaded_row_def)
  have 1: "\<exists>sub'. successor (sequences g i) sub (int (popcount sub)) = Inr (sub', int (popcount sub'))"
    if "sub AND sets g i = sub \<and> sub \<noteq> sets g i" for sub
  proof -
    have "bits sub \<subseteq> set ?es" using that by (simp add: AND_eq_iff loaded_card(2) [OF l])
    moreover have "bits sub \<noteq> set ?es"
      using that bits_inj [of sub "sets g i"] by (auto simp: loaded_card(2) [OF l])
    ultimately obtain t where t: "t < length ?es" "\<forall>k<t. ?es ! k \<in> bits sub" "?es ! t \<notin> bits sub"
      by (rule first_missing)
    show ?thesis using successor_valid [OF v r t] by (simp add: popcount_card)
  qed
  have tr: "visited (sequences g i) (sets g i) 0 0 [] = Some (Inr (map pair_of ?ws))"
    by (rule visited_valid [OF v r a])
  have 2: "\<forall>(sub, sz)\<in>set (map pair_of ?ws). sz = int (popcount sub)"
    by (auto simp: pair_of_def popcount_card)
  have im: "i < MAX_NUMBER" using assms(2,3) by simp
  obtain tr' where tr': "visited (sequences g i) (sets g i) 0 0 [] = Some (Inr tr')"
    "\<forall>hist. subsets_loop (sets g) (sequences g i) (sets g i) i 0 0 hist =
               Some (Inr (int (popcount (sets g i)),
                 foldl (tally (sets g) i) hist (map fst (butlast tr')))) \<and>
             process_set (sets g) (sequences g) i hist =
               Some (Inr (foldl (tally (sets g) i) hist (map fst tr')))"
    using pass_of_set [OF l im] by blast
  have eq: "tr' = map pair_of ?ws" using tr tr'(1) by simp
  have cnt: "foldl (tally (sets g) i) hist (map fst (map pair_of ?ws)) k =
           hist k + of_nat (card {w. w AND sets g i = w \<and> popcount w = k \<and>
                                    \<not> contained_loop (sets g) w i 0})" for hist k
  proof -
    obtain h' where h': "process_set (sets g) (sequences g) i hist = Some (Inr h')"
        "\<forall>k. h' k = hist k + of_nat (card (newly (sets g) i k))"
      using process_set_counts [OF l im, of hist] by blast
    have "h' = foldl (tally (sets g) i) hist (map fst (map pair_of ?ws))"
      using h'(1) tr'(2) eq by simp
    with h'(2) show ?thesis by (simp add: newly_by_masks)
  qed
  have 3: "\<forall>hist.
        subsets_loop (sets g) (sequences g i) (sets g i) i 0 0 hist =
          Some (Inr (int (popcount (sets g i)),
                     foldl (tally (sets g) i) hist (map fst (butlast (map pair_of ?ws))))) \<and>
        process_set (sets g) (sequences g) i hist =
          Some (Inr (foldl (tally (sets g) i) hist (map fst (map pair_of ?ws)))) \<and>
        (\<forall>k. foldl (tally (sets g) i) hist (map fst (map pair_of ?ws)) k =
           hist k + of_nat (card {w. w AND sets g i = w \<and> popcount w = k \<and>
                                    \<not> contained_loop (sets g) w i 0}))"
    using tr'(2) eq cnt by simp
  from g(1) 1 tr 2 3 show ?thesis by blast
qed

text \<open>
  For C4: the second base set of the header's example and the empty subset.
\<close>

theorem C4_witness:
  "valid_line (scenario_A ! 0) \<and> valid_line (scenario_A ! 1) \<and> valid_line (scenario_A ! 2) \<and>
   length scenario_A \<le> MAX_NUMBER \<and> (1::nat) < length scenario_A \<and>
   (\<exists>g tr. Read_input (Some scenario_A) initial = Inr (True, g) \<and>
      0 AND sets g 1 = 0 \<and> 0 \<noteq> sets g 1 \<and>
      (\<exists>sub'. successor (sequences g 1) 0 (int (popcount 0)) = Inr (sub', int (popcount sub'))) \<and>
      visited (sequences g 1) (sets g 1) 0 0 [] = Some (Inr tr) \<and>
      list_all (\<lambda>(sub, sz). sz = int (popcount sub)) tr \<and>
      (\<forall>hist.
        subsets_loop (sets g) (sequences g 1) (sets g 1) 1 0 0 hist =
          Some (Inr (int (popcount (sets g 1)),
                     foldl (tally (sets g) 1) hist (map fst (butlast tr)))) \<and>
        process_set (sets g) (sequences g) 1 hist =
          Some (Inr (foldl (tally (sets g) 1) hist (map fst tr))) \<and>
        (\<forall>k. foldl (tally (sets g) 1) hist (map fst tr) k =
           hist k + of_nat (card {w. w AND sets g 1 = w \<and> popcount w = k \<and>
                                    \<not> contained_loop (sets g) w 1 0}))))"
proof -
  have v: "valid_line (scenario_A ! 0) \<and> valid_line (scenario_A ! 1) \<and> valid_line (scenario_A ! 2)"
    using valid_scenario_A by (simp add: scenario_A_def)
  have i: "(1::nat) < length scenario_A" by (simp add: scenario_A_def)
  have n: "length (line_elements (scenario_A ! 1)) = 5" by code_simp
  obtain g tr where g: "Read_input (Some scenario_A) initial = Inr (True, g)"
     "\<forall>sub. sub AND sets g 1 = sub \<and> sub \<noteq> sets g 1 \<longrightarrow>
        (\<exists>sub'. successor (sequences g 1) sub (int (popcount sub)) = Inr (sub', int (popcount sub')))"
     "visited (sequences g 1) (sets g 1) 0 0 [] = Some (Inr tr)"
     "\<forall>(sub, sz)\<in>set tr. sz = int (popcount sub)"
     "\<forall>hist.
        subsets_loop (sets g) (sequences g 1) (sets g 1) 1 0 0 hist =
          Some (Inr (int (popcount (sets g 1)),
                     foldl (tally (sets g) 1) hist (map fst (butlast tr)))) \<and>
        process_set (sets g) (sequences g) 1 hist =
          Some (Inr (foldl (tally (sets g) 1) hist (map fst tr))) \<and>
        (\<forall>k. foldl (tally (sets g) 1) hist (map fst tr) k =
           hist k + of_nat (card {w. w AND sets g 1 = w \<and> popcount w = k \<and>
                                    \<not> contained_loop (sets g) w 1 0}))"
    using C4_size_is_popcount [OF valid_scenario_A length_scenario_A i] by blast
  have "popcount (sets g 1) = 5"
    using Read_input_row [OF valid_scenario_A length_scenario_A i g(1)] n by simp
  then have ne: "0 \<noteq> sets g 1" using popcount_0 by auto
  then have s: "\<exists>sub'. successor (sequences g 1) 0 (int (popcount 0)) = Inr (sub', int (popcount sub'))"
    using g(2) [rule_format, of 0] by simp
  have la: "list_all (\<lambda>(sub, sz). sz = int (popcount sub)) tr"
    using g(4) by (simp add: list_all_iff)
  have z: "0 AND sets g 1 = 0" by simp
  have "\<exists>g tr. Read_input (Some scenario_A) initial = Inr (True, g) \<and>
      0 AND sets g 1 = 0 \<and> 0 \<noteq> sets g 1 \<and>
      (\<exists>sub'. successor (sequences g 1) 0 (int (popcount 0)) = Inr (sub', int (popcount sub'))) \<and>
      visited (sequences g 1) (sets g 1) 0 0 [] = Some (Inr tr) \<and>
      list_all (\<lambda>(sub, sz). sz = int (popcount sub)) tr \<and>
      (\<forall>hist.
        subsets_loop (sets g) (sequences g 1) (sets g 1) 1 0 0 hist =
          Some (Inr (int (popcount (sets g 1)),
                     foldl (tally (sets g) 1) hist (map fst (butlast tr)))) \<and>
        process_set (sets g) (sequences g) 1 hist =
          Some (Inr (foldl (tally (sets g) 1) hist (map fst tr))) \<and>
        (\<forall>k. foldl (tally (sets g) 1) hist (map fst tr) k =
           hist k + of_nat (card {w. w AND sets g 1 = w \<and> popcount w = k \<and>
                                    \<not> contained_loop (sets g) w 1 0})))"
    using g(1) z ne s g(3) la g(5) by (intro exI [of _ g] exI [of _ tr] conjI)
  with v length_scenario_A i show ?thesis by (intro conjI) simp_all
qed

subsection \<open>C5: what Read_input rejects\<close>

text \<open>
  Claim C5 says that the load phase reports an error when more than 1000 base sets are
  supplied or an element lies outside \<open>[0,63]\<close>. \<^verbatim>\<open>Read_input\<close> has no such check. On the
  line \<^verbatim>\<open>64\<close> it evaluates \<^verbatim>\<open>1ULL << 64\<close>, which C++ leaves undefined, and does not return
  false.
\<close>

theorem C5_element_64_not_rejected:
  "Read_input (Some [''64'']) initial = Inl Shift_count_out_of_range"
  by (simp add: Read_input_def read_line.simps First_element_def stream_to_int_def is_space_def
        is_digit_def digits_value_def clamp_int_def Let_def)

text \<open>
  Claim C5, amended: \<^verbatim>\<open>Read_input\<close> reports failure (returns false, the state unchanged)
  exactly when the file cannot be opened; it checks neither the number of base sets nor
  the range of an element.
\<close>

theorem C5_read_fails_only_on_unopened_file:
  "Read_input file g = Inr (False, g') \<longleftrightarrow> file = None \<and> g' = g"
  by (auto simp: Read_input_def split: option.splits sum.splits)

text \<open>
  For C5: a file that cannot be opened.
\<close>

theorem C5_witness:
  "Read_input None initial = Inr (False, initial)"
  using C5_read_fails_only_on_unopened_file [of None initial initial] by simp

subsection \<open>C6: a base set inside an earlier one adds nothing\<close>

text \<open>
  Claim C6: when the base set \<open>i\<close> of a valid input is equal to, or a subset of, an earlier
  base set \<open>j\<close>, the pass of the outer loop for \<open>i\<close> returns the counters as it found
  them, whatever they were.
\<close>

theorem C6_covered_set_adds_nothing:
  assumes "\<forall>l\<in>set lines. valid_line l" and "length lines \<le> MAX_NUMBER"
    and "i < length lines" and "j < i"
    and "set (line_elements (lines ! i)) \<subseteq> set (line_elements (lines ! j))"
  shows "\<exists>g. Read_input (Some lines) initial = Inr (True, g) \<and>
     sets g i AND sets g j = sets g i \<and>
     (\<forall>hist. process_set (sets g) (sequences g) i hist = Some (Inr hist))"
proof -
  obtain g where g: "Read_input (Some lines) initial = Inr (True, g)"
     "\<forall>i<length lines. loaded_row (sets g) (sequences g) i (elements (lines ! i))"
    using Read_input_loads [OF assms(1,2), of initial] by blast
  let ?es = "elements (lines ! i)"
  let ?ws = "enum ?es (length ?es) 0"
  have li: "loaded_row (sets g) (sequences g) i ?es" using g(2) assms(3) by simp
  have lj: "loaded_row (sets g) (sequences g) j (elements (lines ! j))"
    using g(2) assms(3,4) by simp
  have v: "valid_elements ?es" using li by (simp add: loaded_row_def)
  have sub: "bits (sets g i) \<subseteq> bits (sets g j)"
    using assms(5) by (auto simp: loaded_card(2) [OF li] loaded_card(2) [OF lj] elements_def)
  have 1: "sets g i AND sets g j = sets g i" using sub by (simp add: AND_eq_iff)
  have "\<forall>w\<in>set ?ws. contained_loop (sets g) w i 0"
    using sub assms(4) by (auto simp: set_enum_all [OF v] contained_loop_iff loaded_card(2) [OF li])
  then have "foldl (tally (sets g) i) hist ?ws = hist" for hist
    by (rule foldl_tally_contained)
  moreover have "i < MAX_NUMBER" using assms(2,3) by simp
  ultimately have 2: "\<forall>hist. process_set (sets g) (sequences g) i hist = Some (Inr hist)"
    using process_set_valid [OF li] by simp
  from g(1) 1 2 show ?thesis by blast
qed

text \<open>
  For C6: the base set \<open>{0,1}\<close> twice; the numbers written are 1, 2, 1, as for \<open>{0,1}\<close> once.
\<close>

theorem C6_witness:
  "valid_line ''0,1'' \<and> length [''0,1'', ''0,1''] \<le> MAX_NUMBER \<and>
   (1::nat) < length [''0,1'', ''0,1''] \<and> (0::nat) < 1 \<and>
   set (line_elements ([''0,1'', ''0,1''] ! 1)) \<subseteq> set (line_elements ([''0,1'', ''0,1''] ! 0)) \<and>
   (\<exists>g. Read_input (Some [''0,1'', ''0,1'']) initial = Inr (True, g) \<and>
      sets g 1 AND sets g 0 = sets g 1 \<and>
      (\<forall>hist. process_set (sets g) (sequences g) 1 hist = Some (Inr hist))) \<and>
   histogram [''0,1'', ''0,1''] = Some [1, 2, 1] \<and> histogram [''0,1''] = Some [1, 2, 1]"
proof -
  have v1: "valid_line ''0,1''" by code_simp
  then have v: "\<forall>l\<in>set [''0,1'', ''0,1'']. valid_line l" by simp
  have n: "length [''0,1'', ''0,1''] \<le> MAX_NUMBER" by (simp add: MAX_NUMBER_def)
  have i: "(1::nat) < length [''0,1'', ''0,1'']" by simp
  have j: "(0::nat) < 1" by simp
  have s: "set (line_elements ([''0,1'', ''0,1''] ! 1)) \<subseteq> set (line_elements ([''0,1'', ''0,1''] ! 0))"
    by simp
  have h: "histogram [''0,1''] = Some [1, 2, 1]" by code_simp
  from v1 n i j s C6_covered_set_adds_nothing [OF v n i j s] scenario_C_histogram h
  show ?thesis by (intro conjI)
qed

subsection \<open>C7: one base set gives the binomial coefficients\<close>

text \<open>
  Claim C7 says that for one base set of \<open>m\<close> elements the counter \<open>k\<close> is the binomial
  coefficient \<open>m\<close> over \<open>k\<close>. By \<open>covered_single\<close> and \<open>Compute_numbers_counts\<close> it is
  that coefficient modulo \<open>2\<^sup>3\<^sup>2\<close> (so 1, 3, 3, 1 for \<open>{0,1,2}\<close>,
  \<open>scenario_B_histogram\<close>). For \<open>m = 34\<close> and \<open>k = 17\<close> the coefficient is 2333606220,
  more than an \<^verbatim>\<open>int\<close> holds, and the counter reads \<open>-1961361076\<close>.
\<close>

theorem C7_binomial_overflows:
  "\<exists>g g'. Read_input (Some [line_0_to_33]) initial = Inr (True, g) \<and>
      Compute_numbers g = Some (Inr g') \<and>
      popcount (sets g 0) = 34 \<and>
      (34::nat) choose 17 = 2333606220 \<and>
      sint (numbers_of_subsets g' 17) = - 1961361076"
proof -
  have c: "(34::nat) choose 17 = 2333606220"
    by (simp add: binomial_fact' fact_numeral)
  have s: "sint (of_nat (34 choose 17) :: cint) = - 1961361076"
    unfolding c by simp
  have v: "\<forall>l\<in>set [line_0_to_33]. valid_line l" by (simp add: valid_line_0_to_33)
  have n: "length [line_0_to_33] \<le> MAX_NUMBER" by (simp add: MAX_NUMBER_def)
  obtain g g' where g: "Read_input (Some [line_0_to_33]) initial = Inr (True, g)"
      "Compute_numbers g = Some (Inr g')" "\<forall>k. numbers_of_subsets g' k = of_nat (34 choose k)"
    using run_line_0_to_33 by blast
  obtain g2 where g2: "Read_input (Some [line_0_to_33]) initial = Inr (True, g2)"
      "\<forall>i<length [line_0_to_33]. loaded_row (sets g2) (sequences g2) i (elements ([line_0_to_33] ! i))"
    using Read_input_loads [OF v n, of initial] by blast
  have "g2 = g" using g(1) g2(1) by simp
  then have "loaded_row (sets g) (sequences g) 0 (elements line_0_to_33)" using g2(2) by simp
  then have "popcount (sets g 0) = 34"
    using loaded_card(1) [of "sets g" "sequences g" 0 "elements line_0_to_33"]
    by (simp add: elements_line_0_to_33)
  with g c s show ?thesis by auto
qed

text \<open>
  For C7: on that input the counter differs from the binomial coefficient.
\<close>

theorem C7_witness:
  "\<exists>g g'. Read_input (Some [line_0_to_33]) initial = Inr (True, g) \<and>
      Compute_numbers g = Some (Inr g') \<and>
      sint (numbers_of_subsets g' 17) \<noteq> int (popcount (sets g 0) choose 17)"
  using C7_binomial_overflows by auto

subsection \<open>C8: the order of the base sets does not matter\<close>

text \<open>
  Claim C8: for a valid input and any permutation of its lines, \<^verbatim>\<open>Read_input\<close> and
  \<^verbatim>\<open>Compute_numbers\<close> return on both and leave the same counters, so the same numbers are
  written.
\<close>

theorem C8_order_of_lines_irrelevant:
  assumes "\<forall>l\<in>set lines. valid_line l" and "length lines \<le> MAX_NUMBER"
    and "mset lines' = mset lines"
  shows "\<exists>g g' h h'. Read_input (Some lines) initial = Inr (True, g) \<and>
           Compute_numbers g = Some (Inr g') \<and>
           Read_input (Some lines') initial = Inr (True, h) \<and>
           Compute_numbers h = Some (Inr h') \<and>
           numbers_of_subsets h' = numbers_of_subsets g' \<and>
           Write_output h' = Write_output g'"
proof -
  have s: "set lines' = set lines" using assms(3) by (rule mset_eq_setD)
  have n: "length lines' = length lines" using assms(3) by (rule mset_eq_length)
  obtain g g' where g: "Read_input (Some lines) initial = Inr (True, g)"
      "Compute_numbers g = Some (Inr g')"
      "\<forall>k. numbers_of_subsets g' k = numbers_of_subsets initial k + of_nat (covered lines k)"
    using Compute_numbers_counts [OF assms(1,2), of initial] by blast
  obtain h h' where h: "Read_input (Some lines') initial = Inr (True, h)"
      "Compute_numbers h = Some (Inr h')"
      "\<forall>k. numbers_of_subsets h' k = numbers_of_subsets initial k + of_nat (covered lines' k)"
    using Compute_numbers_counts [of lines' initial] assms(1,2) s n by auto
  have "covered lines' k = covered lines k" for k
    by (simp add: covered_def s)
  then have eq: "numbers_of_subsets h' = numbers_of_subsets g'"
    using g(3) h(3) by (intro ext) simp
  then have "Write_output h' = Write_output g'" by (simp add: Write_output_def)
  with g(1,2) h(1,2) eq show ?thesis by blast
qed

text \<open>
  For C8: the header's example and its lines in reverse order.
\<close>

theorem C8_witness:
  "valid_line (scenario_A ! 0) \<and> valid_line (scenario_A ! 1) \<and> valid_line (scenario_A ! 2) \<and>
   length scenario_A \<le> MAX_NUMBER \<and> mset (rev scenario_A) = mset scenario_A \<and>
   rev scenario_A \<noteq> scenario_A \<and>
   (\<exists>g g' h h'. Read_input (Some scenario_A) initial = Inr (True, g) \<and>
           Compute_numbers g = Some (Inr g') \<and>
           Read_input (Some (rev scenario_A)) initial = Inr (True, h) \<and>
           Compute_numbers h = Some (Inr h') \<and>
           numbers_of_subsets h' = numbers_of_subsets g' \<and>
           Write_output h' = Write_output g')"
proof -
  have v: "valid_line (scenario_A ! 0) \<and> valid_line (scenario_A ! 1) \<and> valid_line (scenario_A ! 2)"
    using valid_scenario_A by (simp add: scenario_A_def)
  have m: "mset (rev scenario_A) = mset scenario_A" by simp
  have r: "rev scenario_A \<noteq> scenario_A" by (simp add: scenario_A_def)
  from v length_scenario_A m r
    C8_order_of_lines_irrelevant [OF valid_scenario_A length_scenario_A m]
  show ?thesis by (intro conjI) simp_all
qed

subsection \<open>C9: no zero counter before a nonzero one\<close>

text \<open>
  Claim C9 says that after \<^verbatim>\<open>Compute_numbers\<close> a counter that is 0 is never followed by one
  that is not, so that \<^verbatim>\<open>Write_output\<close>, which stops at the first 0, drops nothing. That
  holds while no number of covered sets reaches \<open>2\<^sup>3\<^sup>2\<close>
  (\<open>support_is_prefix_without_overflow\<close>). The seven base sets of \<open>big_input\<close> cover
  exactly \<open>2\<^sup>3\<^sup>2\<close> sets of 15 elements: counter 15 wraps around to 0, counter 16 is
  938464445, and \<^verbatim>\<open>Write_output\<close> writes at most 15 numbers.
\<close>

theorem C9_zero_cell_before_nonzero:
  "\<exists>g g'. Read_input (Some big_input) initial = Inr (True, g) \<and>
      Compute_numbers g = Some (Inr g') \<and>
      covered big_input 15 = 4294967296 \<and>
      numbers_of_subsets g' 15 = 0 \<and>
      numbers_of_subsets g' 16 = 938464445 \<and>
      length (Write_output g') \<le> 15"
proof -
  have n: "length big_input \<le> MAX_NUMBER" by (simp add: big_input_def MAX_NUMBER_def)
  obtain g g' where g: "Read_input (Some big_input) initial = Inr (True, g)"
      "Compute_numbers g = Some (Inr g')"
      "\<forall>k. numbers_of_subsets g' k = numbers_of_subsets initial k + of_nat (covered big_input k)"
    using Compute_numbers_counts [OF valid_big_input n, of initial] by blast
  have 15: "numbers_of_subsets g' 15 = 0"
    using g(3) by (simp add: covered_big_input_15 initial_def)
  have 16: "numbers_of_subsets g' 16 = 938464445"
    using g(3) by (simp add: covered_big_input_16 initial_def)
  have "length (write_loop (numbers_of_subsets g') 0) \<le> 15 - 0"
    by (rule write_loop_stops [where i = 0 and k = 15]) (simp_all add: 15)
  then have "length (Write_output g') \<le> 15" by (simp add: Write_output_def)
  with g(1,2) 15 16 covered_big_input_15 show ?thesis by blast
qed

text \<open>
  For C9: on that input a zero counter is followed by a nonzero one.
\<close>

theorem C9_witness:
  "\<exists>g g'. Read_input (Some big_input) initial = Inr (True, g) \<and>
      Compute_numbers g = Some (Inr g') \<and>
      numbers_of_subsets g' 15 = 0 \<and> numbers_of_subsets g' (15 + 1) \<noteq> 0"
  using C9_zero_cell_before_nonzero by auto

subsection \<open>C10: an empty line\<close>

text \<open>
  Claim C10: when a line of an otherwise valid input is empty, its mask is 0,
  \<^verbatim>\<open>Compute_numbers\<close> returns, the loop over the subsets of that set returns at once with
  the counters untouched, and the pass for that set adds one to counter 0 when it is the
  first set and nothing otherwise.
\<close>

theorem C10_empty_line:
  assumes "\<forall>l\<in>set lines. valid_line l" and "length lines \<le> MAX_NUMBER"
    and "i < length lines" and "lines ! i = []"
  shows "\<exists>g g'. Read_input (Some lines) initial = Inr (True, g) \<and>
     Compute_numbers g = Some (Inr g') \<and>
     sets g i = 0 \<and>
     (\<forall>hist. subsets_loop (sets g) (sequences g i) (sets g i) i 0 0 hist = Some (Inr (0, hist)) \<and>
        process_set (sets g) (sequences g) i hist =
          Some (Inr (if i = 0 then hist(0 := hist 0 + 1) else hist)))"
proof -
  obtain g where g: "Read_input (Some lines) initial = Inr (True, g)"
     "\<forall>i<length lines. loaded_row (sets g) (sequences g) i (elements (lines ! i))"
    using Read_input_loads [OF assms(1,2), of initial] by blast
  obtain g1 g' where g': "Read_input (Some lines) initial = Inr (True, g1)"
      "Compute_numbers g1 = Some (Inr g')"
    using Compute_numbers_counts [OF assms(1,2), of initial] by blast
  have "g1 = g" using g(1) g'(1) by simp
  have "elements (lines ! i) = []"
    using assms(4) by (simp add: elements_def line_elements.simps)
  then have z: "sets g i = 0" using g(2) assms(3) by (auto simp: loaded_row_def)
  have loop: "subsets_loop (sets g) (sequences g i) (sets g i) i 0 0 hist = Some (Inr (0, hist))" for hist
    by (subst subsets_loop.simps) (simp add: z)
  have c: "contained_loop (sets g) 0 i 0 = (0 < i)"
    by (auto simp: contained_loop_iff)
  have "i < MAX_NUMBER" using assms(2,3) by simp
  then have "process_set (sets g) (sequences g) i hist =
          Some (Inr (if i = 0 then hist(0 := hist 0 + 1) else hist))" for hist
    using loop [of hist] by (simp add: process_set_def z c increment_def)
  with g(1) g'(2) \<open>g1 = g\<close> z loop show ?thesis by blast
qed

text \<open>
  For C10: an empty line between two base sets, and an empty line alone.
\<close>

theorem C10_witness:
  "valid_line ''0,1'' \<and> valid_line [] \<and> valid_line ''2'' \<and>
   length [''0,1'', [], ''2''] \<le> MAX_NUMBER \<and> (1::nat) < length [''0,1'', [], ''2''] \<and>
   [''0,1'', [], ''2''] ! 1 = [] \<and>
   (\<exists>g g'. Read_input (Some [''0,1'', [], ''2'']) initial = Inr (True, g) \<and>
     Compute_numbers g = Some (Inr g') \<and>
     sets g 1 = 0 \<and>
     (\<forall>hist. subsets_loop (sets g) (sequences g 1) (sets g 1) 1 0 0 hist = Some (Inr (0, hist)) \<and>
        process_set (sets g) (sequences g) 1 hist = Some (Inr hist))) \<and>
   histogram [''0,1'', [], ''2''] = Some [1, 3, 1] \<and> histogram [[]] = Some [1]"
proof -
  have v1: "valid_line ''0,1''" and v2: "valid_line []" and v3: "valid_line ''2''" by code_simp+
  then have v: "\<forall>l\<in>set [''0,1'', [], ''2'']. valid_line l" by simp
  have n: "length [''0,1'', [], ''2''] \<le> MAX_NUMBER" by (simp add: MAX_NUMBER_def)
  have i: "(1::nat) < length [''0,1'', [], ''2'']" by simp
  have e: "[''0,1'', [], ''2''] ! 1 = []" by simp
  have h1: "histogram [''0,1'', [], ''2''] = Some [1, 3, 1]" by code_simp
  have h2: "histogram [[]] = Some [1]" by code_simp
  have "\<exists>g g'. Read_input (Some [''0,1'', [], ''2'']) initial = Inr (True, g) \<and>
     Compute_numbers g = Some (Inr g') \<and>
     sets g 1 = 0 \<and>
     (\<forall>hist. subsets_loop (sets g) (sequences g 1) (sets g 1) 1 0 0 hist = Some (Inr (0, hist)) \<and>
        process_set (sets g) (sequences g) 1 hist = Some (Inr hist))"
    using C10_empty_line [OF v n i e] by simp
  with v1 v2 v3 n i e h1 h2 show ?thesis by (intro conjI)
qed

end
